theory Spec2Isabelle
  imports Complex_Main "HOL-Library.Log_Nat"
begin

section \<open>pdf\_splitter.py: data model\<close>

text \<open>
  The script splits a PDF into fragments that stay under a size ceiling given in
  megabytes. Everything outside the script (the file system, PyPDF2's reader and writer,
  pathlib) is modelled as explicit data:
  \<^item> a path is its parent directory and its final component (\<open>pathlib.Path\<close>);
  \<^item> a file on disk has a size in bytes and, when PyPDF2 can parse it, a page count;
  \<^item> the disk is a partial map from paths to files, together with a counter of the
    serialisations attempted so far;
  \<^item> what a serialisation produces (how many bytes, or a failure that may leave a partial
    file behind) and whether a deletion succeeds are not determined by the script: they are
    read from an environment, indexed by the counter, so every sequence of measured sizes
    and failures is covered.
\<close>

datatype path = Path (parent: string) (name: string)

record disk_file =
  fbytes :: nat
  fpages :: "nat option"

type_synonym filesystem = "path \<Rightarrow> disk_file option"

record world =
  files :: filesystem
  tick :: nat

datatype error = OSError | PdfReadError | WriteError | ZeroDivisionError

datatype write_result = Written nat | WriteFailed error "nat option"

record env =
  serialize :: "nat \<Rightarrow> nat list \<Rightarrow> write_result"
  remove_ok :: "nat \<Rightarrow> bool"

subsection \<open>Python floats\<close>

text \<open>
  Sizes in megabytes are Python floats (IEEE binary64). A finite float is modelled as the
  rational it denotes, and every arithmetic operation as the exact operation followed by
  \<open>fl\<close>, rounding to the nearest number with a 53-bit significand, ties to even
  (\<open>rne\<close> rounds to the nearest integer, ties to even; \<open>expo x\<close> is the binary exponent
  of a positive \<open>x\<close>, the integer \<open>e\<close> with \<open>2 ^ e \<le> x < 2 ^ (e + 1)\<close>). The exponent
  range is not bounded: overflow to infinity, subnormal numbers and NaN are outside the
  model. \<open>py_int\<close> is \<open>int()\<close> on a float: truncation towards zero.
\<close>

definition rne :: "rat \<Rightarrow> int" where
  "rne y = (let f = \<lfloor>y\<rfloor>; r = y - of_int f in
     if r < 1 / 2 then f else if 1 / 2 < r then f + 1 else if even f then f else f + 1)"

definition expo :: "rat \<Rightarrow> int" where
  "expo x = (if 1 \<le> x then bitlen \<lfloor>x\<rfloor> - 1 else - bitlen (\<lceil>1 / x\<rceil> - 1))"

definition fl :: "rat \<Rightarrow> rat" where
  "fl x = (if x = 0 then 0 else
     let u = 2 powi (expo \<bar>x\<bar> - 52) in of_int (rne (x / u)) * u)"

definition py_int :: "rat \<Rightarrow> int" where
  "py_int x = (if 0 \<le> x then \<lfloor>x\<rfloor> else \<lceil>x\<rceil>)"

subsection \<open>pathlib and string formatting\<close>

fun rfind :: "char \<Rightarrow> string \<Rightarrow> nat option" where
  "rfind c [] = None"
| "rfind c (x # xs) =
     (case rfind c xs of
        Some i \<Rightarrow> Some (Suc i)
      | None \<Rightarrow> if x = c then Some 0 else None)"

definition suffix :: "path \<Rightarrow> string" where
  "suffix p = (case rfind CHR ''.'' (name p) of
     Some i \<Rightarrow> if 0 < i \<and> i < length (name p) - 1 then drop i (name p) else []
   | None \<Rightarrow> [])"

definition stem :: "path \<Rightarrow> string" where
  "stem p = (case rfind CHR ''.'' (name p) of
     Some i \<Rightarrow> if 0 < i \<and> i < length (name p) - 1 then take i (name p) else name p
   | None \<Rightarrow> name p)"

definition digit :: "nat \<Rightarrow> char" where
  "digit d = ''0123456789'' ! d"

fun str :: "nat \<Rightarrow> string" where
  "str n = (if n < 10 then [digit n] else str (n div 10) @ [digit (n mod 10)])"

declare str.simps [simp del]

definition part_path :: "path \<Rightarrow> nat \<Rightarrow> path" where
  "part_path input_path chunk_num =
     Path (parent input_path) (stem input_path @ ''_part'' @ str chunk_num @ ''.pdf'')"

section \<open>get\_file\_size\_mb\<close>

text \<open>
  \<open>os.path.getsize(file_path) / (1024 * 1024)\<close>: \<open>getsize\<close> raises when the file does
  not exist; the division of the byte count is a float division.
\<close>

definition size_mb :: "nat \<Rightarrow> rat" where
  "size_mb bytes = fl (of_nat bytes / (1024 * 1024))"

definition get_file_size_mb :: "world \<Rightarrow> path \<Rightarrow> error + rat" where
  "get_file_size_mb w file_path =
     (case files w file_path of
        None \<Rightarrow> Inl OSError
      | Some f \<Rightarrow> Inr (size_mb (fbytes f)))"

section \<open>split\_pdf\<close>

text \<open>
  \<open>PdfReader(input_path)\<close> followed by \<open>len(reader.pages)\<close>: PyPDF2 refuses an empty
  file and a file it cannot parse.
\<close>

definition PdfReader :: "world \<Rightarrow> path \<Rightarrow> error + nat" where
  "PdfReader w input_path =
     (case files w input_path of
        None \<Rightarrow> Inl OSError
      | Some f \<Rightarrow>
          if fbytes f = 0 then Inl PdfReadError
          else (case fpages f of None \<Rightarrow> Inl PdfReadError | Some n \<Rightarrow> Inr n))"

text \<open>
  The estimate \<open>max(1, int(total_pages * max_size_mb / file_size_mb))\<close>: the page count
  is converted to a float, the product and the quotient are float operations.
\<close>

definition pages_estimate :: "nat \<Rightarrow> rat \<Rightarrow> rat \<Rightarrow> nat" where
  "pages_estimate total_pages max_size_mb file_size_mb =
     nat (max 1 (py_int (fl (fl (fl (of_nat total_pages) * max_size_mb) / file_size_mb))))"

text \<open>The inner \<open>for _ in range(pages_per_chunk)\<close> loop, with its \<open>break\<close>.\<close>

fun add_pages :: "nat \<Rightarrow> nat \<Rightarrow> nat list \<times> nat \<Rightarrow> nat list \<times> nat" where
  "add_pages 0 total_pages (writer, current_page) = (writer, current_page)"
| "add_pages (Suc n) total_pages (writer, current_page) =
     (if current_page \<ge> total_pages then (writer, current_page)
      else add_pages n total_pages (writer @ [current_page], current_page + 1))"

text \<open>
  One record per candidate fragment the loop writes: the plan state it was built from, the
  pages put into the writer, the candidate path and what became of it. The list of these
  records is not in the Python; it is kept so that properties of a run can be stated.
\<close>

datatype verdict = Accepted nat | Discarded nat | RemoveFailed nat | NotWritten error

record attempt =
  a_start :: nat
  a_ppc :: nat
  a_num :: nat
  a_pages :: "nat list"
  a_path :: path
  a_verdict :: verdict

definition is_accepted :: "attempt \<Rightarrow> bool" where
  "is_accepted a = (case a_verdict a of Accepted b \<Rightarrow> True | _ \<Rightarrow> False)"

definition accepted :: "attempt list \<Rightarrow> attempt list" where
  "accepted l = filter is_accepted l"

text \<open>
  The relation between a candidate and the candidate written after it, used to state how
  the plan state moves: after a discarded candidate the next one starts at the same page
  with half the pages per chunk (at least one) and the same ordinal; after an accepted one
  it starts at the first page not yet consumed, with the same pages per chunk and the next
  ordinal. Nothing follows a candidate whose write or deletion failed.
\<close>

definition follows :: "attempt \<Rightarrow> attempt \<Rightarrow> bool" where
  "follows a a' =
     (case a_verdict a of
        Discarded b \<Rightarrow>
          a_start a' = a_start a \<and> a_ppc a' = max 1 (a_ppc a div 2) \<and> a_num a' = a_num a
      | Accepted b \<Rightarrow>
          a_start a' = a_start a + length (a_pages a) \<and> a_ppc a' = a_ppc a \<and>
          a_num a' = a_num a + 1
      | _ \<Rightarrow> False)"

record plan_state =
  current_page :: nat
  pages_per_chunk :: nat
  chunk_num :: nat
  output_files :: "path list"
  disk :: world
  attempts :: "attempt list"

record run =
  ret :: "error + path list"
  after :: world
  log :: "attempt list"

datatype step = Next plan_state | Raise error world "attempt list"

text \<open>The body of the \<open>while current_page < total_pages\<close> loop.\<close>

definition plan_step :: "env \<Rightarrow> path \<Rightarrow> rat \<Rightarrow> nat \<Rightarrow> plan_state \<Rightarrow> step" where
  "plan_step e input_path max_size_mb total_pages st =
     (let chunk_start = current_page st;
          (writer, current_page') =
             add_pages (pages_per_chunk st) total_pages ([], chunk_start);
          output_path = part_path input_path (chunk_num st);
          w = disk st;
          a = \<lparr>a_start = chunk_start, a_ppc = pages_per_chunk st, a_num = chunk_num st,
               a_pages = writer, a_path = output_path, a_verdict = NotWritten WriteError\<rparr>
      in case serialize e (tick w) writer of
           WriteFailed err left \<Rightarrow>
             Raise err
               \<lparr>files = (case left of
                           None \<Rightarrow> files w
                         | Some b \<Rightarrow> (files w)(output_path \<mapsto> \<lparr>fbytes = b, fpages = None\<rparr>)),
                tick = tick w + 1\<rparr>
               (attempts st @ [a\<lparr>a_verdict := NotWritten err\<rparr>])
         | Written b \<Rightarrow>
             (let w1 = \<lparr>files = (files w)(output_path \<mapsto>
                                    \<lparr>fbytes = b, fpages = Some (length writer)\<rparr>),
                        tick = tick w + 1\<rparr>
              in case get_file_size_mb w1 output_path of
                   Inl err \<Rightarrow> Raise err w1 (attempts st @ [a\<lparr>a_verdict := NotWritten err\<rparr>])
                 | Inr chunk_size_mb \<Rightarrow>
                     if chunk_size_mb > max_size_mb \<and> (current_page' - chunk_start) > 1 then
                       (if remove_ok e (tick w) then
                          Next (st\<lparr>current_page := chunk_start,
                                   pages_per_chunk := max 1 (pages_per_chunk st div 2),
                                   disk := w1\<lparr>files := (files w1)(output_path := None)\<rparr>,
                                   attempts := attempts st @ [a\<lparr>a_verdict := Discarded b\<rparr>]\<rparr>)
                        else Raise OSError w1
                               (attempts st @ [a\<lparr>a_verdict := RemoveFailed b\<rparr>]))
                     else
                       Next (st\<lparr>current_page := current_page',
                                output_files := output_files st @ [output_path],
                                chunk_num := chunk_num st + 1,
                                disk := w1,
                                attempts := attempts st @ [a\<lparr>a_verdict := Accepted b\<rparr>]\<rparr>)))"

partial_function (option) split_loop ::
  "env \<Rightarrow> path \<Rightarrow> rat \<Rightarrow> nat \<Rightarrow> plan_state \<Rightarrow> run option" where
  "split_loop e input_path max_size_mb total_pages st =
     (if current_page st < total_pages then
        (case plan_step e input_path max_size_mb total_pages st of
           Next st' \<Rightarrow> split_loop e input_path max_size_mb total_pages st'
         | Raise err w l \<Rightarrow> Some \<lparr>ret = Inl err, after = w, log = l\<rparr>)
      else Some \<lparr>ret = Inr (output_files st), after = disk st, log = attempts st\<rparr>)"

declare split_loop.simps [code]

definition split_pdf :: "env \<Rightarrow> world \<Rightarrow> path \<Rightarrow> rat \<Rightarrow> run option" where
  "split_pdf e w input_path max_size_mb =
     (case get_file_size_mb w input_path of
        Inl err \<Rightarrow> Some \<lparr>ret = Inl err, after = w, log = []\<rparr>
      | Inr file_size_mb \<Rightarrow>
          if file_size_mb \<le> max_size_mb then Some \<lparr>ret = Inr [], after = w, log = []\<rparr>
          else
            (case PdfReader w input_path of
               Inl err \<Rightarrow> Some \<lparr>ret = Inl err, after = w, log = []\<rparr>
             | Inr total_pages \<Rightarrow>
                 if file_size_mb = 0 then
                   Some \<lparr>ret = Inl ZeroDivisionError, after = w, log = []\<rparr>
                 else
                   split_loop e input_path max_size_mb total_pages
                     \<lparr>current_page = 0,
                      pages_per_chunk = pages_estimate total_pages max_size_mb file_size_mb,
                      chunk_num = 1, output_files = [], disk = w, attempts = []\<rparr>))"

section \<open>process\_pdfs\<close>

text \<open>
  The \<open>for pdf_file in pdf_files\<close> loop with its \<open>try\<close>/\<open>except Exception\<close>. The
  second component counts \<open>total_split\<close>; the third collects what \<open>split_pdf\<close> returned
  or raised for each file, in order (not in the Python, kept for stating properties).
\<close>

fun process_loop ::
  "env \<Rightarrow> rat \<Rightarrow> path list \<Rightarrow> world \<times> nat \<times> (path \<times> (error + path list)) list \<Rightarrow>
   (world \<times> nat \<times> (path \<times> (error + path list)) list) option" where
  "process_loop e max_size_mb [] acc = Some acc"
| "process_loop e max_size_mb (pdf_file # rest) (w, total_split, seen) =
     (case split_pdf e w pdf_file max_size_mb of
        None \<Rightarrow> None
      | Some r \<Rightarrow>
          (case ret r of
             Inr split_files \<Rightarrow>
               process_loop e max_size_mb rest
                 (after r, (if split_files \<noteq> [] then total_split + 1 else total_split),
                  seen @ [(pdf_file, ret r)])
           | Inl err \<Rightarrow>
               process_loop e max_size_mb rest (after r, total_split, seen @ [(pdf_file, ret r)])))"

text \<open>
  Whether an outcome is counted in \<open>total_split\<close>: \<open>split_pdf\<close> returned a non-empty
  list. \<open>replay\<close> runs \<open>split_pdf\<close> on the files of a list of outcomes, one after the
  other, each on the disk the previous call left, and checks that each call returns or
  raises what the list says; it gives the disk after the last call.
\<close>

definition was_split :: "error + path list \<Rightarrow> bool" where
  "was_split res = (case res of Inr split_files \<Rightarrow> split_files \<noteq> [] | Inl err \<Rightarrow> False)"

fun replay :: "env \<Rightarrow> rat \<Rightarrow> world \<Rightarrow> (path \<times> (error + path list)) list \<Rightarrow> world option" where
  "replay e max_size_mb w [] = Some w"
| "replay e max_size_mb w ((pdf_file, res) # rest) =
     (case split_pdf e w pdf_file max_size_mb of
        None \<Rightarrow> None
      | Some r \<Rightarrow> if ret r = res then replay e max_size_mb (after r) rest else None)"

text \<open>
  \<open>process_pdfs\<close> from the point where \<open>pdf_files\<close> has been resolved. The summary is
  the number printed in the last line, \<open>None\<close> when the function returns early with
  "No PDF files found!".
\<close>

record report =
  summary :: "nat option"
  final :: world
  outcomes :: "(path \<times> (error + path list)) list"

definition process_pdfs :: "env \<Rightarrow> world \<Rightarrow> path list \<Rightarrow> rat \<Rightarrow> report option" where
  "process_pdfs e w pdf_files max_size_mb =
     (if pdf_files = [] then Some \<lparr>summary = None, final = w, outcomes = []\<rparr>
      else
        (case process_loop e max_size_mb pdf_files (w, 0, []) of
           None \<Rightarrow> None
         | Some (w', total_split, seen) \<Rightarrow>
             Some \<lparr>summary = Some total_split, final = w', outcomes = seen\<rparr>))"

section \<open>Sample inputs\<close>

text \<open>
  A directory with five files, used to run the definitions on concrete inputs: a five-page
  document of 5 MiB, a two-page document of 3 MiB, a file that is not a PDF, a PDF without
  pages, and a document whose extension is in upper case.
\<close>

definition demo_doc :: path where
  "demo_doc = Path ''/data'' ''report.pdf''"

definition small_doc :: path where
  "small_doc = Path ''/data'' ''small.pdf''"

definition corrupt_doc :: path where
  "corrupt_doc = Path ''/data'' ''corrupt.pdf''"

definition blank_doc :: path where
  "blank_doc = Path ''/data'' ''blank.pdf''"

definition upper_doc :: path where
  "upper_doc = Path ''/data'' ''SCAN.PDF''"

definition demo_world :: world where
  "demo_world =
     \<lparr>files = [demo_doc \<mapsto> \<lparr>fbytes = 5242880, fpages = Some 5\<rparr>,
               small_doc \<mapsto> \<lparr>fbytes = 3145728, fpages = Some 2\<rparr>,
               corrupt_doc \<mapsto> \<lparr>fbytes = 5242880, fpages = None\<rparr>,
               blank_doc \<mapsto> \<lparr>fbytes = 5242880, fpages = Some 0\<rparr>,
               upper_doc \<mapsto> \<lparr>fbytes = 5242880, fpages = Some 5\<rparr>],
      tick = 0\<rparr>"

text \<open>
  A serialiser under which one page takes 6 MiB, two pages take 2 MiB and any larger
  fragment takes 5 MiB, and one whose every write fails after 100 bytes.
\<close>

definition demo_env :: env where
  "demo_env =
     \<lparr>serialize = (\<lambda>t pages. Written (if length pages = 1 then 6291456
                                       else if length pages = 2 then 2097152 else 5242880)),
      remove_ok = (\<lambda>t. True)\<rparr>"

definition failing_env :: env where
  "failing_env =
     \<lparr>serialize = (\<lambda>t pages. WriteFailed WriteError (Some 100)),
      remove_ok = (\<lambda>t. True)\<rparr>"

text \<open>
  What \<open>split_pdf\<close> does with the five-page document under a ceiling of 4 MB: the
  estimate is four pages, the four-page candidate is too large and is discarded, and the
  document is split into two pages, two pages and one page.
\<close>

definition demo_log :: "attempt list" where
  "demo_log =
     [\<lparr>a_start = 0, a_ppc = 4, a_num = 1, a_pages = [0, 1, 2, 3],
       a_path = Path ''/data'' ''report_part1.pdf'', a_verdict = Discarded 5242880\<rparr>,
      \<lparr>a_start = 0, a_ppc = 2, a_num = 1, a_pages = [0, 1],
       a_path = Path ''/data'' ''report_part1.pdf'', a_verdict = Accepted 2097152\<rparr>,
      \<lparr>a_start = 2, a_ppc = 2, a_num = 2, a_pages = [2, 3],
       a_path = Path ''/data'' ''report_part2.pdf'', a_verdict = Accepted 2097152\<rparr>,
      \<lparr>a_start = 4, a_ppc = 2, a_num = 3, a_pages = [4],
       a_path = Path ''/data'' ''report_part3.pdf'', a_verdict = Accepted 6291456\<rparr>]"

definition demo_result :: run where
  "demo_result =
     \<lparr>ret = Inr [Path ''/data'' ''report_part1.pdf'', Path ''/data'' ''report_part2.pdf'',
                 Path ''/data'' ''report_part3.pdf''],
      after = \<lparr>files = (files demo_world)
                 (Path ''/data'' ''report_part1.pdf'' \<mapsto> \<lparr>fbytes = 2097152, fpages = Some 2\<rparr>,
                  Path ''/data'' ''report_part2.pdf'' \<mapsto> \<lparr>fbytes = 2097152, fpages = Some 2\<rparr>,
                  Path ''/data'' ''report_part3.pdf'' \<mapsto> \<lparr>fbytes = 6291456, fpages = Some 1\<rparr>),
               tick = 4\<rparr>,
      log = demo_log\<rparr>"

text \<open>
  A serialiser whose first write succeeds with 5 MiB and whose later writes fail before
  anything reaches the disk, and what \<open>split_pdf\<close> does with the five-page document
  under it: the four-page candidate is discarded, and the write of the retry fails.
\<close>

definition interrupted_env :: env where
  "interrupted_env =
     \<lparr>serialize = (\<lambda>t pages. if t = 0 then Written 5242880 else WriteFailed WriteError None),
      remove_ok = (\<lambda>t. True)\<rparr>"

definition interrupted_result :: run where
  "interrupted_result =
     \<lparr>ret = Inl WriteError,
      after = \<lparr>files = (files demo_world)(Path ''/data'' ''report_part1.pdf'' := None),
               tick = 2\<rparr>,
      log = [\<lparr>a_start = 0, a_ppc = 4, a_num = 1, a_pages = [0, 1, 2, 3],
              a_path = Path ''/data'' ''report_part1.pdf'', a_verdict = Discarded 5242880\<rparr>,
             \<lparr>a_start = 0, a_ppc = 2, a_num = 1, a_pages = [0, 1],
              a_path = Path ''/data'' ''report_part1.pdf'',
              a_verdict = NotWritten WriteError\<rparr>]\<rparr>"

section \<open>Rounding to a float\<close>

lemma expo_ge1:
  assumes "1 \<le> x"
  shows "2 powi (expo x) \<le> x \<and> x < 2 powi (expo x + 1)"
proof -
  define n where "n = \<lfloor>x\<rfloor>"
  have n: "0 < n" using assms by (simp add: n_def)
  have e: "expo x = bitlen n - 1" using assms by (simp add: expo_def n_def)
  have b1: "1 \<le> bitlen n" using n by (simp add: bitlen_alt_def)
  from bitlen_bounds[OF n] have lo: "2 ^ nat (bitlen n - 1) \<le> n" and hi: "n < 2 ^ nat (bitlen n)"
    by auto
  have "(2::rat) powi (bitlen n - 1) = of_int (2 ^ nat (bitlen n - 1))"
    using b1 by (simp add: power_int_nonneg_exp)
  also have "\<dots> \<le> of_int n" using lo by (simp only: of_int_le_iff)
  also have "\<dots> \<le> x" by (simp add: n_def)
  finally have A: "2 powi (expo x) \<le> x" by (simp add: e)
  have hi': "n + 1 \<le> 2 ^ nat (bitlen n)" using hi by simp
  have "x < of_int (n + 1)" using floor_correct[of x] by (simp add: n_def)
  also have "\<dots> \<le> of_int (2 ^ nat (bitlen n))" using hi' by (simp only: of_int_le_iff)
  also have "\<dots> = (2::rat) powi (bitlen n)" using b1 by (simp add: power_int_nonneg_exp)
  finally have B: "x < 2 powi (expo x + 1)" by (simp add: e)
  from A B show ?thesis ..
qed

lemma expo_lt1:
  assumes "0 < x" "x < 1"
  shows "2 powi (expo x) \<le> x \<and> x < 2 powi (expo x + 1)"
proof -
  define m where "m = \<lceil>1 / x\<rceil> - 1"
  have inv: "1 < 1 / x" using assms by simp
  then have "1 < \<lceil>1 / x\<rceil>" by (simp add: less_ceiling_iff)
  then have m: "0 < m" by (simp add: m_def)
  have e: "expo x = - bitlen m" using assms by (simp add: expo_def m_def)
  have b1: "1 \<le> bitlen m" using m by (simp add: bitlen_alt_def)
  from bitlen_bounds[OF m] have lo: "2 ^ nat (bitlen m - 1) \<le> m" and hi: "m < 2 ^ nat (bitlen m)"
    by auto
  have mlt: "of_int m < 1 / x" unfolding m_def by (metis ceiling_correct of_int_diff of_int_1)
  have mge: "1 / x \<le> of_int (m + 1)" unfolding m_def by (simp add: le_of_int_ceiling)
  have hi': "m + 1 \<le> 2 ^ nat (bitlen m)" using hi by simp
  have "1 / x \<le> of_int (m + 1)" by (rule mge)
  also have "\<dots> \<le> of_int (2 ^ nat (bitlen m))" using hi' by (simp only: of_int_le_iff)
  also have "\<dots> = (2::rat) ^ nat (bitlen m)" by simp
  finally have "1 / x \<le> 2 ^ nat (bitlen m)" .
  then have "1 / 2 ^ nat (bitlen m) \<le> x" using assms(1)
    by (simp add: field_simps)
  moreover have "(2::rat) powi (- bitlen m) = 1 / 2 ^ nat (bitlen m)"
    using b1 by (simp add: power_int_minus_divide power_int_nonneg_exp)
  ultimately have A: "2 powi (expo x) \<le> x" by (simp add: e)
  have "(2::rat) ^ nat (bitlen m - 1) = of_int (2 ^ nat (bitlen m - 1))" by simp
  also have "\<dots> \<le> of_int m" using lo by (simp only: of_int_le_iff)
  also have "\<dots> < 1 / x" by (rule mlt)
  finally have "(2::rat) ^ nat (bitlen m - 1) < 1 / x" .
  then have "x < 1 / 2 ^ nat (bitlen m - 1)" using assms(1)
    by (simp add: field_simps)
  moreover have "(2::rat) powi (- bitlen m + 1) = 1 / 2 ^ nat (bitlen m - 1)"
  proof -
    have "- bitlen m + 1 = - (bitlen m - 1)" by simp
    then show ?thesis using b1 by (simp only: power_int_minus_divide) (simp add: power_int_nonneg_exp)
  qed
  ultimately have B: "x < 2 powi (expo x + 1)" by (simp add: e)
  from A B show ?thesis ..
qed

lemma expo_bounds:
  assumes "0 < x"
  shows "2 powi (expo x) \<le> x \<and> x < 2 powi (expo x + 1)"
  using assms expo_ge1 expo_lt1 by (cases "1 \<le> x") auto

lemma expo_unique:
  assumes "2 powi e \<le> x" "x < 2 powi (e + 1)"
  shows "expo x = e"
proof -
  have pos: "0 < x" using assms(1) by (rule less_le_trans[rotated]) simp
  from expo_bounds[OF pos] have lo: "2 powi (expo x) \<le> x" and hi: "x < 2 powi (expo x + 1)"
    by auto
  have "(2::rat) powi e < 2 powi (expo x + 1)" using assms(1) hi by simp
  then have 1: "e < expo x + 1"
    using power_int_increasing[of "expo x + 1" e "2::rat"] by (cases "e < expo x + 1") auto
  have "(2::rat) powi (expo x) < 2 powi (e + 1)" using lo assms(2) by simp
  then have 2: "expo x < e + 1"
    using power_int_increasing[of "e + 1" "expo x" "2::rat"] by (cases "expo x < e + 1") auto
  from 1 2 show ?thesis by simp
qed


lemma rne_err: "\<bar>of_int (rne y) - y\<bar> \<le> 1 / 2"
proof -
  have "of_int \<lfloor>y\<rfloor> \<le> y" "y < of_int \<lfloor>y\<rfloor> + 1" using floor_correct[of y] by auto
  then show ?thesis by (auto simp: rne_def Let_def)
qed

lemma rne_of_int: "rne (of_int k) = k"
  by (simp add: rne_def)

lemma rne_near:
  assumes "of_int k - 1 / 2 < y" "y < of_int k + 1 / 2"
  shows "rne y = k"
proof -
  have "\<bar>of_int (rne y) - y\<bar> \<le> 1 / 2" by (rule rne_err)
  with assms have "of_int (rne y) < (of_int k :: rat) + 1" "(of_int k :: rat) - 1 < of_int (rne y)"
    by linarith+
  then have "rne y < k + 1" "k - 1 < rne y"
    by (metis of_int_less_iff of_int_add of_int_1, metis of_int_less_iff of_int_diff of_int_1)
  then show ?thesis by simp
qed

lemma rne_tie:
  assumes "y = of_int k + 1 / 2"
  shows "rne y = (if even k then k else k + 1)"
proof -
  have "\<lfloor>y\<rfloor> = k" unfolding assms by (rule floor_unique) simp_all
  then show ?thesis using assms by (simp add: rne_def)
qed

lemma rne_mono:
  assumes "y \<le> z"
  shows "rne y \<le> rne z"
proof (cases "\<lfloor>y\<rfloor> = \<lfloor>z\<rfloor>")
  case True
  then show ?thesis using assms by (auto simp: rne_def Let_def)
next
  case False
  have "\<lfloor>y\<rfloor> \<le> \<lfloor>z\<rfloor>" using assms by (rule floor_mono)
  with False have "\<lfloor>y\<rfloor> + 1 \<le> \<lfloor>z\<rfloor>" by simp
  moreover have "rne y \<le> \<lfloor>y\<rfloor> + 1" by (simp add: rne_def Let_def)
  moreover have "\<lfloor>z\<rfloor> \<le> rne z" by (simp add: rne_def Let_def)
  ultimately show ?thesis by linarith
qed

lemma rne_le_int: "y \<le> of_int k \<Longrightarrow> rne y \<le> k"
  using rne_mono[of y "of_int k"] by (simp add: rne_of_int)

lemma rne_ge_int: "of_int k \<le> y \<Longrightarrow> k \<le> rne y"
  using rne_mono[of "of_int k" y] by (simp add: rne_of_int)

lemma fl_pos_eval:
  assumes "2 powi e \<le> x" "x < 2 powi (e + 1)"
  shows "fl x = of_int (rne (x / 2 powi (e - 52))) * 2 powi (e - 52)"
proof -
  have pos: "0 < x" using assms(1) by (rule less_le_trans[rotated]) simp
  have "expo x = e" using assms by (rule expo_unique)
  then show ?thesis using pos by (simp add: fl_def Let_def)
qed

lemma fl_dyadic:
  assumes "0 < m" "m < 2 ^ 53"
  shows "fl (of_int m * 2 powi j) = of_int m * 2 powi j"
proof -
  define x :: rat where "x = of_int m * 2 powi j"
  define e where "e = expo x"
  have pos: "0 < x" using assms(1) by (simp add: x_def)
  from expo_bounds[OF pos] have lo: "2 powi e \<le> x" and hi: "x < 2 powi (e + 1)"
    by (auto simp: e_def)
  have "x < 2 ^ 53 * 2 powi j"
  proof -
    have "(of_int m :: rat) < of_int (2 ^ 53)" using assms(2) by (simp only: of_int_less_iff)
    then show ?thesis by (simp add: x_def)
  qed
  also have "\<dots> = (2::rat) powi (53 + j)" by (simp add: power_int_add)
  finally have "(2::rat) powi e < 2 powi (53 + j)" using lo by simp
  then have ej: "e < 53 + j"
    using power_int_increasing[of "53 + j" e "2::rat"] by (cases "e < 53 + j") auto
  define d where "d = nat (j - (e - 52))"
  have d: "j - (e - 52) = int d" using ej by (simp add: d_def)
  have "x / 2 powi (e - 52) = of_int m * 2 powi (j - (e - 52))"
    by (simp add: x_def power_int_diff)
  also have "\<dots> = of_int (m * 2 ^ d)" by (simp add: d)
  finally have q: "x / 2 powi (e - 52) = of_int (m * 2 ^ d)" .
  have "fl x = of_int (rne (x / 2 powi (e - 52))) * 2 powi (e - 52)"
    using lo hi by (rule fl_pos_eval)
  also have "\<dots> = of_int (m * 2 ^ d) * 2 powi (e - 52)"
    by (simp only: q rne_of_int)
  also have "\<dots> = x / 2 powi (e - 52) * 2 powi (e - 52)" by (simp only: q)
  also have "\<dots> = x" by simp
  finally show ?thesis by (simp add: x_def)
qed

lemma fl_of_int:
  assumes "0 \<le> k" "k < 2 ^ 53"
  shows "fl (of_int k) = of_int k"
proof (cases "k = 0")
  case True
  then show ?thesis by (simp add: fl_def)
next
  case False
  then have "0 < k" using assms(1) by simp
  from fl_dyadic[OF this assms(2), of 0] show ?thesis by simp
qed

lemma fl_of_nat: "n < 2 ^ 53 \<Longrightarrow> fl (of_nat n) = of_nat n"
  using fl_of_int[of "int n"] by (simp add: nat_less_iff flip: of_nat_power)


lemma fl_range:
  assumes "2 powi e \<le> x" "x < 2 powi (e + 1)"
  shows "2 powi e \<le> fl x \<and> fl x \<le> 2 powi (e + 1)"
proof -
  define u :: rat where "u = 2 powi (e - 52)"
  have u: "0 < u" by (simp add: u_def)
  have fl: "fl x = of_int (rne (x / u)) * u" unfolding u_def using assms by (rule fl_pos_eval)
  have lo: "(2::rat) powi e = of_int (2 ^ 52) * u" by (simp add: u_def power_int_diff)
  have hi: "(2::rat) powi (e + 1) = of_int (2 ^ 53) * u"
    by (simp add: u_def power_int_diff power_int_add)
  have "of_int (2 ^ 52) \<le> x / u" using assms(1) u by (simp add: lo pos_le_divide_eq)
  then have 1: "2 ^ 52 \<le> rne (x / u)" by (rule rne_ge_int)
  have "x / u \<le> of_int (2 ^ 53)" using assms(2) u by (simp add: hi pos_divide_le_eq)
  then have 2: "rne (x / u) \<le> 2 ^ 53" by (rule rne_le_int)
  have "of_int (2 ^ 52) * u \<le> of_int (rne (x / u)) * u"
    using 1 u by (simp only: mult_le_cancel_right_pos of_int_le_iff)
  moreover have "of_int (rne (x / u)) * u \<le> of_int (2 ^ 53) * u"
    using 2 u by (simp only: mult_le_cancel_right_pos of_int_le_iff)
  ultimately show ?thesis by (simp only: fl lo hi)
qed

lemma expo_mono:
  assumes "0 < x" "x \<le> y"
  shows "expo x \<le> expo y"
proof -
  have "0 < y" using assms by simp
  from expo_bounds[OF assms(1)] expo_bounds[OF this]
  have "(2::rat) powi (expo x) < 2 powi (expo y + 1)" using assms(2) by simp
  then have "expo x < expo y + 1"
    using power_int_increasing[of "expo y + 1" "expo x" "2::rat"]
    by (cases "expo x < expo y + 1") auto
  then show ?thesis by simp
qed

lemma fl_mono:
  assumes "0 < x" "x \<le> y"
  shows "fl x \<le> fl y"
proof -
  have y: "0 < y" using assms by simp
  note bx = expo_bounds[OF assms(1)] and bdy = expo_bounds[OF y]
  show ?thesis
  proof (cases "expo x = expo y")
    case True
    define u :: rat where "u = 2 powi (expo y - 52)"
    have u: "0 < u" by (simp add: u_def)
    have "x / u \<le> y / u" using assms(2) u by (simp add: divide_right_mono)
    then have "rne (x / u) \<le> rne (y / u)" by (rule rne_mono)
    then have "of_int (rne (x / u)) * u \<le> of_int (rne (y / u)) * u"
      using u by (simp only: mult_le_cancel_right_pos of_int_le_iff)
    moreover have "fl x = of_int (rne (x / u)) * u"
      unfolding u_def using bx by (simp add: fl_pos_eval True)
    moreover have "fl y = of_int (rne (y / u)) * u"
      unfolding u_def using bdy by (simp add: fl_pos_eval)
    ultimately show ?thesis by simp
  next
    case False
    with expo_mono[OF assms] have "expo x + 1 \<le> expo y" by simp
    then have "(2::rat) powi (expo x + 1) \<le> 2 powi (expo y)"
      by (simp add: power_int_increasing)
    moreover have "fl x \<le> 2 powi (expo x + 1)" using fl_range bx by blast
    moreover have "2 powi (expo y) \<le> fl y" using fl_range bdy by blast
    ultimately show ?thesis by linarith
  qed
qed

lemma fl_nonneg: "0 \<le> x \<Longrightarrow> 0 \<le> fl x"
proof (cases "x = 0")
  case True
  then show ?thesis by (simp add: fl_def)
next
  case False
  assume "0 \<le> x"
  with False have pos: "0 < x" by simp
  have "(0::rat) \<le> 2 powi (expo x)" by simp
  also have "\<dots> \<le> fl x" using fl_range expo_bounds[OF pos] by blast
  finally show ?thesis .
qed

lemma fl_pos: "0 < x \<Longrightarrow> 0 < fl x"
proof -
  assume pos: "0 < x"
  have "(0::rat) < 2 powi (expo x)" by simp
  also have "\<dots> \<le> fl x" using fl_range expo_bounds[OF pos] by blast
  finally show ?thesis .
qed


lemma floor_fl_quotient:
  assumes A: "0 < A" "A < 2 ^ 53" and B: "0 < B"
  shows "\<lfloor>fl (of_int A / of_int B)\<rfloor> = \<lfloor>(of_int A / of_int B :: rat)\<rfloor>"
proof -
  define q :: rat where "q = of_int A / of_int B"
  define k where "k = \<lfloor>q\<rfloor>"
  define e where "e = expo q"
  define u :: rat where "u = 2 powi (e - 52)"
  have q: "0 < q" using A B by (simp add: q_def)
  have u: "0 < u" by (simp add: u_def)
  have Bq: "of_int B * q = of_int A" using B by (simp add: q_def)
  from expo_bounds[OF q] have lo: "2 powi e \<le> q" and hi: "q < 2 powi (e + 1)"
    by (auto simp: e_def)
  have k0: "0 \<le> k" using q by (simp add: k_def)
  have kq: "of_int k \<le> q" "q < of_int k + 1" using floor_correct[of q] by (auto simp: k_def)
  have B1: "(1::rat) \<le> of_int B" using B by (metis of_int_1_le_iff int_one_le_iff_zero_less)
  have qA: "q \<le> of_int A"
  proof -
    have "q * 1 \<le> q * of_int B" using B1 q by (simp only: mult_le_cancel_left_pos)
    then show ?thesis using Bq by (simp add: mult.commute)
  qed
  text \<open>Lower bound: the integer below the quotient is itself a float.\<close>
  have lower: "of_int k \<le> fl q"
  proof (cases "k = 0")
    case True
    then show ?thesis using fl_nonneg[of q] q by simp
  next
    case False
    with k0 have kpos: "0 < k" by simp
    have "(of_int k :: rat) \<le> of_int A" using kq(1) qA by linarith
    then have "k \<le> A" by (simp only: of_int_le_iff)
    then have "k < 2 ^ 53" using A(2) by simp
    then have "fl (of_int k) = of_int k" using k0 by (simp add: fl_of_int)
    moreover have "fl (of_int k) \<le> fl q" using kpos kq(1) by (intro fl_mono) simp_all
    ultimately show ?thesis by simp
  qed
  text \<open>Upper bound: the quotient is too far below the next integer to round up to it.\<close>
  have e52: "e \<le> 52"
  proof -
    have "(2::rat) powi e \<le> q" by (rule lo)
    also have "\<dots> \<le> of_int A" by (rule qA)
    also have "\<dots> < of_int (2 ^ 53)" using A(2) by (simp only: of_int_less_iff)
    also have "\<dots> = (2::rat) powi 53" by simp
    finally have "(2::rat) powi e < 2 powi 53" .
    then have "e < 53" using power_int_increasing[of 53 e "2::rat"] by (cases "e < 53") auto
    then show ?thesis by simp
  qed
  define d where "d = nat (52 - e)"
  have d: "52 - e = int d" using e52 by (simp add: d_def)
  have inv_u: "1 / u = of_int (2 ^ d)"
  proof -
    have "1 / u = (2::rat) powi (- (e - 52))" by (simp only: u_def power_int_minus_divide)
    also have "- (e - 52) = int d" using d by simp
    finally show ?thesis by simp
  qed
  define M where "M = (k + 1) * 2 ^ d"
  have M: "of_int M = (of_int k + 1) / u"
  proof -
    have "(of_int k + 1) / u = (of_int k + 1) * (1 / u)" by simp
    then show ?thesis by (simp only: inv_u M_def) simp
  qed
  have gap: "1 / of_int B \<le> of_int k + 1 - q"
  proof -
    have "of_int A < (of_int k + 1) * (of_int B :: rat)"
      using kq(2) B Bq by (metis mult.commute mult_less_cancel_left_pos of_int_0_less_iff)
    then have "(of_int A :: rat) < of_int ((k + 1) * B)" by simp
    then have "A < (k + 1) * B" by (simp only: of_int_less_iff)
    then have "A + 1 \<le> (k + 1) * B" by simp
    then have "(of_int (A + 1) :: rat) \<le> of_int ((k + 1) * B)" by (simp only: of_int_le_iff)
    then have "of_int A + 1 \<le> (of_int k + 1) * (of_int B :: rat)" by simp
    then have "(of_int A + 1) / of_int B \<le> (of_int k + 1 :: rat)"
      using B by (simp add: pos_divide_le_eq)
    then show ?thesis by (simp add: q_def add_divide_distrib)
  qed
  have Bu: "of_int B * u < 2"
  proof -
    have "of_int B * (2::rat) powi e \<le> of_int B * q"
      using lo B by (simp add: mult_left_mono)
    also have "\<dots> < of_int (2 ^ 53)" using A(2) unfolding Bq by (simp only: of_int_less_iff)
    finally have "of_int B * (2::rat) powi e < 2 ^ 53" by simp
    moreover have "(2::rat) powi e = u * 2 ^ 52" by (simp add: u_def power_int_diff)
    ultimately have "of_int B * u * 2 ^ 52 < 2 * (2::rat) ^ 52" by (simp add: mult.assoc)
    then show ?thesis by (simp add: mult.commute)
  qed
  have half: "1 / 2 < (of_int k + 1 - q) / u"
  proof -
    have "0 < of_int B * u" using B u by simp
    then have "1 / 2 < 1 / (of_int B * u)"
      using Bu by (simp add: pos_less_divide_eq)
    also have "\<dots> = (1 / of_int B) / u" by simp
    also have "\<dots> \<le> (of_int k + 1 - q) / u" using gap u by (simp only: divide_right_mono less_imp_le)
    finally show ?thesis .
  qed
  have "(of_int k + 1 - q) / u = (of_int k + 1) / u - q / u" by (rule diff_divide_distrib)
  with half have "q / u < of_int M - 1 / 2" unfolding M by linarith
  moreover have "of_int (rne (q / u)) \<le> q / u + 1 / 2" using rne_err[of "q / u"] by linarith
  ultimately have "(of_int (rne (q / u)) :: rat) < of_int M" by linarith
  then have "of_int (rne (q / u)) * u < of_int M * u" using u by simp
  moreover have "fl q = of_int (rne (q / u)) * u" unfolding u_def using lo hi by (rule fl_pos_eval)
  moreover have "of_int M * u = of_int k + 1" using u by (simp add: M)
  ultimately have upper: "fl q < of_int k + 1" by simp
  have "\<lfloor>fl q\<rfloor> = k" using lower upper by (rule floor_unique)
  then show ?thesis by (simp add: q_def k_def)
qed

section \<open>The planning loop, step by step\<close>

lemma add_pages_eq:
  "add_pages n N (wr, cur) = (wr @ [cur..<min (cur + n) N], max cur (min (cur + n) N))"
proof (induction n arbitrary: wr cur)
  case 0
  then show ?case by simp
next
  case (Suc n)
  show ?case
  proof (cases "N \<le> cur")
    case True
    then show ?thesis by simp
  next
    case False
    then have "cur < min (cur + Suc n) N" by simp
    then have "[cur..<min (cur + Suc n) N] = cur # [Suc cur..<min (cur + Suc n) N]"
      by (rule upt_conv_Cons)
    with False show ?thesis by (simp add: Suc.IH max_def)
  qed
qed

lemma plan_step_NextE:
  assumes "plan_step e ip c N s = Next s'" and "current_page s < N"
  obtains (discard) b where
      "serialize e (tick (disk s)) [current_page s..<min (current_page s + pages_per_chunk s) N]
         = Written b"
      "c < size_mb b"
      "1 < min (current_page s + pages_per_chunk s) N - current_page s"
      "remove_ok e (tick (disk s))"
      "s' = s\<lparr>current_page := current_page s,
               pages_per_chunk := max 1 (pages_per_chunk s div 2),
               disk := \<lparr>files = (files (disk s))(part_path ip (chunk_num s) := None),
                        tick = tick (disk s) + 1\<rparr>,
               attempts := attempts s @
                 [\<lparr>a_start = current_page s, a_ppc = pages_per_chunk s, a_num = chunk_num s,
                   a_pages = [current_page s..<min (current_page s + pages_per_chunk s) N],
                   a_path = part_path ip (chunk_num s), a_verdict = Discarded b\<rparr>]\<rparr>"
  | (accept) b where
      "serialize e (tick (disk s)) [current_page s..<min (current_page s + pages_per_chunk s) N]
         = Written b"
      "\<not> (c < size_mb b \<and> 1 < min (current_page s + pages_per_chunk s) N - current_page s)"
      "s' = s\<lparr>current_page := min (current_page s + pages_per_chunk s) N,
               output_files := output_files s @ [part_path ip (chunk_num s)],
               chunk_num := chunk_num s + 1,
               disk := \<lparr>files = (files (disk s))(part_path ip (chunk_num s) \<mapsto>
                          \<lparr>fbytes = b,
                           fpages = Some (min (current_page s + pages_per_chunk s) N
                                          - current_page s)\<rparr>),
                        tick = tick (disk s) + 1\<rparr>,
               attempts := attempts s @
                 [\<lparr>a_start = current_page s, a_ppc = pages_per_chunk s, a_num = chunk_num s,
                   a_pages = [current_page s..<min (current_page s + pages_per_chunk s) N],
                   a_path = part_path ip (chunk_num s), a_verdict = Accepted b\<rparr>]\<rparr>"
  using assms
  by (auto simp: plan_step_def add_pages_eq get_file_size_mb_def Let_def max_def
           split: write_result.splits if_splits)

lemma plan_step_RaiseE:
  assumes "plan_step e ip c N s = Raise err w l" and "current_page s < N"
  obtains (write_failed) left where
      "serialize e (tick (disk s)) [current_page s..<min (current_page s + pages_per_chunk s) N]
         = WriteFailed err left"
      "w = \<lparr>files = (case left of None \<Rightarrow> files (disk s)
                      | Some b \<Rightarrow> (files (disk s))(part_path ip (chunk_num s) \<mapsto>
                                     \<lparr>fbytes = b, fpages = None\<rparr>)),
            tick = tick (disk s) + 1\<rparr>"
      "l = attempts s @
             [\<lparr>a_start = current_page s, a_ppc = pages_per_chunk s, a_num = chunk_num s,
               a_pages = [current_page s..<min (current_page s + pages_per_chunk s) N],
               a_path = part_path ip (chunk_num s), a_verdict = NotWritten err\<rparr>]"
  | (remove_failed) b where
      "serialize e (tick (disk s)) [current_page s..<min (current_page s + pages_per_chunk s) N]
         = Written b"
      "c < size_mb b"
      "1 < min (current_page s + pages_per_chunk s) N - current_page s"
      "\<not> remove_ok e (tick (disk s))"
      "err = OSError"
      "w = \<lparr>files = (files (disk s))(part_path ip (chunk_num s) \<mapsto>
                      \<lparr>fbytes = b,
                       fpages = Some (min (current_page s + pages_per_chunk s) N
                                      - current_page s)\<rparr>),
            tick = tick (disk s) + 1\<rparr>"
      "l = attempts s @
             [\<lparr>a_start = current_page s, a_ppc = pages_per_chunk s, a_num = chunk_num s,
               a_pages = [current_page s..<min (current_page s + pages_per_chunk s) N],
               a_path = part_path ip (chunk_num s), a_verdict = RemoveFailed b\<rparr>]"
  using assms
  by (auto simp: plan_step_def add_pages_eq get_file_size_mb_def Let_def max_def
           split: write_result.splits if_splits)

lemma plan_step_decreases:
  assumes "plan_step e ip c N s = Next s'" "current_page s < N" "0 < pages_per_chunk s"
  shows "(s', s) \<in> measures [\<lambda>s. N - current_page s, pages_per_chunk]"
  using assms(1,2)
proof (cases rule: plan_step_NextE)
  case (discard b)
  then show ?thesis by auto
next
  case (accept b)
  then show ?thesis using assms(2,3) by auto
qed

lemma split_loop_rule:
  assumes init: "I s0"
    and ppc: "\<And>s. I s \<Longrightarrow> 0 < pages_per_chunk s"
    and step: "\<And>s s'. I s \<Longrightarrow> current_page s < N \<Longrightarrow> plan_step e ip c N s = Next s' \<Longrightarrow> I s'"
    and fail: "\<And>s err w l. I s \<Longrightarrow> current_page s < N \<Longrightarrow>
                  plan_step e ip c N s = Raise err w l \<Longrightarrow> Q \<lparr>ret = Inl err, after = w, log = l\<rparr>"
    and finish: "\<And>s. I s \<Longrightarrow> \<not> current_page s < N \<Longrightarrow>
                  Q \<lparr>ret = Inr (output_files s), after = disk s, log = attempts s\<rparr>"
  shows "\<exists>r. split_loop e ip c N s0 = Some r \<and> Q r"
proof -
  have "wf (measures [\<lambda>s. N - current_page s, pages_per_chunk])" by simp
  then show ?thesis using init
  proof (induction s0 rule: wf_induct_rule)
    case (less s)
    show ?case
    proof (cases "current_page s < N")
      case False
      then have "split_loop e ip c N s
                   = Some \<lparr>ret = Inr (output_files s), after = disk s, log = attempts s\<rparr>"
        by (subst split_loop.simps) simp
      with finish[OF less.prems False] show ?thesis by simp
    next
      case True
      show ?thesis
      proof (cases "plan_step e ip c N s")
        case (Next s')
        have "(s', s) \<in> measures [\<lambda>s. N - current_page s, pages_per_chunk]"
          using Next True ppc[OF less.prems] by (rule plan_step_decreases)
        moreover have "I s'" using less.prems True Next by (rule step)
        ultimately have "\<exists>r. split_loop e ip c N s' = Some r \<and> Q r" by (rule less.IH)
        moreover have "split_loop e ip c N s = split_loop e ip c N s'"
          using True Next by (subst split_loop.simps) simp
        ultimately show ?thesis by simp
      next
        case (Raise err w l)
        then have "split_loop e ip c N s = Some \<lparr>ret = Inl err, after = w, log = l\<rparr>"
          using True by (subst split_loop.simps) simp
        with fail[OF less.prems True Raise] show ?thesis by simp
      qed
    qed
  qed
qed

lemma pages_estimate_pos: "0 < pages_estimate N c s"
  by (simp add: pages_estimate_def)

lemma split_pdf_cases:
  assumes "split_pdf e w ip c = Some r"
  obtains (under) s where "get_file_size_mb w ip = Inr s" "s \<le> c"
      "r = \<lparr>ret = Inr [], after = w, log = []\<rparr>"
  | (error) err where "r = \<lparr>ret = Inl err, after = w, log = []\<rparr>"
  | (loop) N s where "PdfReader w ip = Inr N" "get_file_size_mb w ip = Inr s" "c < s"
      "split_loop e ip c N
         \<lparr>current_page = 0, pages_per_chunk = pages_estimate N c s, chunk_num = 1,
          output_files = [], disk = w, attempts = []\<rparr> = Some r"
  using assms
  by (auto simp: split_pdf_def split: sum.splits if_splits)

lemma split_pdf_total: "\<exists>r. split_pdf e w ip c = Some r"
proof -
  have "\<exists>r. split_loop e ip c N
              \<lparr>current_page = 0, pages_per_chunk = pages_estimate N c s, chunk_num = 1,
               output_files = [], disk = w, attempts = []\<rparr> = Some r \<and> True" for N s
    by (rule split_loop_rule[where I = "\<lambda>s. 0 < pages_per_chunk s"])
       (auto simp: pages_estimate_pos elim!: plan_step_NextE)
  then show ?thesis by (auto simp: split_pdf_def split: sum.splits)
qed

section \<open>Documents already under the ceiling\<close>

lemma size_mb_exact:
  assumes "b < 2 ^ 53"
  shows "size_mb b = of_nat b / (1024 * 1024)"
proof (cases "b = 0")
  case True
  then show ?thesis by (simp add: size_mb_def fl_def)
next
  case False
  then have "0 < int b" by simp
  moreover have "int b < 2 ^ 53" using assms by (simp add: nat_less_iff flip: of_nat_power)
  ultimately have "fl (of_int (int b) * 2 powi (- 20)) = of_int (int b) * 2 powi (- 20)"
    by (rule fl_dyadic)
  then show ?thesis by (simp add: size_mb_def power_int_minus_divide)
qed

lemma size_mb_pos: "0 < b \<Longrightarrow> 0 < size_mb b"
  unfolding size_mb_def by (rule fl_pos) simp

lemma demo_paths_distinct:
  "distinct [demo_doc, small_doc, corrupt_doc, blank_doc, upper_doc]"
  by (simp add: demo_doc_def small_doc_def corrupt_doc_def blank_doc_def upper_doc_def)

lemma demo_files:
  "files demo_world demo_doc = Some \<lparr>fbytes = 5242880, fpages = Some 5\<rparr>"
  "files demo_world small_doc = Some \<lparr>fbytes = 3145728, fpages = Some 2\<rparr>"
  "files demo_world corrupt_doc = Some \<lparr>fbytes = 5242880, fpages = None\<rparr>"
  "files demo_world blank_doc = Some \<lparr>fbytes = 5242880, fpages = Some 0\<rparr>"
  "files demo_world upper_doc = Some \<lparr>fbytes = 5242880, fpages = Some 5\<rparr>"
  using demo_paths_distinct by (simp_all add: demo_world_def)

lemma demo_sizes:
  "get_file_size_mb demo_world demo_doc = Inr 5"
  "get_file_size_mb demo_world small_doc = Inr 3"
  "get_file_size_mb demo_world corrupt_doc = Inr 5"
  "get_file_size_mb demo_world blank_doc = Inr 5"
  "get_file_size_mb demo_world upper_doc = Inr 5"
  by (simp_all add: get_file_size_mb_def demo_files size_mb_exact)

text \<open>
  C4. A document whose measured size is at most the ceiling is not split: \<open>split_pdf\<close>
  returns the empty list, and the disk after the call is the disk before it, so no fragment
  file has been created and the source file is as it was.
\<close>

theorem under_ceiling_untouched:
  assumes "get_file_size_mb w input_path = Inr file_size_mb"
    and "file_size_mb \<le> max_size_mb"
  shows "split_pdf e w input_path max_size_mb = Some \<lparr>ret = Inr [], after = w, log = []\<rparr>"
  using assms by (simp add: split_pdf_def)

theorem under_ceiling_untouched_witness:
  "get_file_size_mb demo_world small_doc = Inr 3 \<and> (3::rat) \<le> 4 \<and>
   split_pdf demo_env demo_world small_doc 4
     = Some \<lparr>ret = Inr [], after = demo_world, log = []\<rparr>"
  using under_ceiling_untouched[of demo_world small_doc 3 4 demo_env]
  by (simp add: demo_sizes)

section \<open>A sample run\<close>

lemma fl_numeral: "numeral k < (2::int) ^ 53 \<Longrightarrow> fl (numeral k) = numeral k"
  using fl_of_int[of "numeral k"] by simp

lemma py_int_numeral: "py_int (numeral k) = numeral k"
  by (simp add: py_int_def)

lemma demo_estimate: "pages_estimate 5 4 5 = 4"
  by (simp add: pages_estimate_def fl_numeral py_int_numeral)

lemma demo_stems:
  "stem demo_doc = ''report''" "parent demo_doc = ''/data''"
  "stem upper_doc = ''SCAN''" "parent upper_doc = ''/data''"
  by (simp_all add: stem_def demo_doc_def upper_doc_def)

lemmas eval_step = plan_step_def add_pages_eq part_path_def demo_stems digit_def str.simps
  get_file_size_mb_def size_mb_exact Let_def

lemma demo_run: "split_pdf demo_env demo_world demo_doc 4 = Some demo_result"
  apply (simp add: split_pdf_def demo_sizes PdfReader_def demo_files demo_estimate)
  apply (subst split_loop.simps, simp add: eval_step demo_env_def)
  apply (subst split_loop.simps, simp add: eval_step demo_env_def)
  apply (subst split_loop.simps, simp add: eval_step demo_env_def)
  apply (subst split_loop.simps, simp add: eval_step demo_env_def)
  apply (subst split_loop.simps, simp add: eval_step demo_env_def)
  apply (simp add: demo_result_def demo_log_def demo_world_def upt_rec numeral_2_eq_2)
  done

section \<open>Accepted fragments and the ceiling\<close>

lemma split_pdf_outputs:
  assumes "split_pdf e w ip c = Some r" "ret r = Inr outs"
  shows "map a_path (accepted (log r)) = outs"
  using assms(1)
proof (cases rule: split_pdf_cases)
  case (under s)
  then show ?thesis using assms(2) by (simp add: accepted_def)
next
  case (error err)
  then show ?thesis using assms(2) by simp
next
  case (loop N s)
  have "\<exists>r. split_loop e ip c N
              \<lparr>current_page = 0, pages_per_chunk = pages_estimate N c s, chunk_num = 1,
               output_files = [], disk = w, attempts = []\<rparr> = Some r \<and>
            (\<forall>outs. ret r = Inr outs \<longrightarrow> map a_path (accepted (log r)) = outs)"
    by (rule split_loop_rule[where I = "\<lambda>s. 0 < pages_per_chunk s \<and>
          output_files s = map a_path (accepted (attempts s))"])
       (auto simp: pages_estimate_pos accepted_def is_accepted_def elim!: plan_step_NextE)
  with loop(4) assms(2) show ?thesis by auto
qed

text \<open>
  C1. In every run of \<open>split_pdf\<close>, a candidate that was accepted with more than one page
  measured at most the ceiling, and a candidate of exactly one page is never discarded for
  its size: once written it is accepted (a one-page attempt ends the run only when the write
  itself fails). The accepted candidates are the fragments \<open>split_pdf\<close> returns.
\<close>

theorem ceiling_respected:
  assumes "split_pdf e w input_path max_size_mb = Some r"
  shows "(\<forall>a\<in>set (log r).
            (\<forall>b. a_verdict a = Accepted b \<and> 1 < length (a_pages a) \<longrightarrow> size_mb b \<le> max_size_mb) \<and>
            (length (a_pages a) = 1 \<longrightarrow>
               (\<exists>b. a_verdict a = Accepted b) \<or> (\<exists>err. a_verdict a = NotWritten err))) \<and>
         (\<forall>outs. ret r = Inr outs \<longrightarrow> map a_path (accepted (log r)) = outs)"
proof -
  let ?P = "\<lambda>a. (\<forall>b. a_verdict a = Accepted b \<and> 1 < length (a_pages a) \<longrightarrow> size_mb b \<le> max_size_mb) \<and>
            (length (a_pages a) = 1 \<longrightarrow>
               (\<exists>b. a_verdict a = Accepted b) \<or> (\<exists>err. a_verdict a = NotWritten err))"
  have "\<forall>a\<in>set (log r). ?P a"
    using assms
  proof (cases rule: split_pdf_cases)
    case (under s)
    then show ?thesis by simp
  next
    case (error err)
    then show ?thesis by simp
  next
    case (loop N s)
    have "\<exists>r. split_loop e input_path max_size_mb N
                \<lparr>current_page = 0, pages_per_chunk = pages_estimate N max_size_mb s,
                 chunk_num = 1, output_files = [], disk = w, attempts = []\<rparr> = Some r \<and>
              (\<forall>a\<in>set (log r). ?P a)"
    proof (rule split_loop_rule[where I = "\<lambda>s. 0 < pages_per_chunk s \<and>
              (\<forall>a\<in>set (attempts s). ?P a)"], goal_cases)
      case 1
      show ?case by (simp add: pages_estimate_pos)
    next
      case (2 s)
      then show ?case by simp
    next
      case (3 s s')
      from 3(3,2) show ?case
        by (cases rule: plan_step_NextE) (use 3(1) in \<open>auto simp: not_less\<close>)
    next
      case (4 s err w l)
      from 4(3,2) show ?case
        by (cases rule: plan_step_RaiseE) (use 4(1) in auto)
    next
      case (5 s)
      then show ?case by simp
    qed
    with loop(4) show ?thesis by auto
  qed
  moreover have "\<forall>outs. ret r = Inr outs \<longrightarrow> map a_path (accepted (log r)) = outs"
    using split_pdf_outputs[OF assms] by simp
  ultimately show ?thesis by simp
qed

theorem ceiling_respected_witness:
  "split_pdf demo_env demo_world demo_doc 4 = Some demo_result \<and>
   log demo_result ! 1 \<in> set (log demo_result) \<and>
   a_verdict (log demo_result ! 1) = Accepted 2097152 \<and>
   length (a_pages (log demo_result ! 1)) = 2 \<and> size_mb 2097152 \<le> 4 \<and>
   log demo_result ! 3 \<in> set (log demo_result) \<and>
   length (a_pages (log demo_result ! 3)) = 1 \<and>
   a_verdict (log demo_result ! 3) = Accepted 6291456 \<and> 4 < size_mb 6291456 \<and>
   ret demo_result = Inr (map a_path (accepted (log demo_result)))"
  using ceiling_respected[OF demo_run] demo_run
  by (simp add: demo_result_def demo_log_def size_mb_exact accepted_def is_accepted_def)

section \<open>Coverage of the document\<close>



section \<open>A document without pages\<close>

text \<open>
  C10. A document that exceeds the ceiling and that the reader opens with no pages: the
  loop body never runs, \<open>split_pdf\<close> returns the empty list without raising, the disk is
  unchanged, and the batch loop goes on to the next file with \<open>total_split\<close> as it was.
\<close>

theorem no_pages_no_fragments:
  assumes "PdfReader w pdf_file = Inr 0"
    and "get_file_size_mb w pdf_file = Inr file_size_mb"
    and "max_size_mb < file_size_mb"
  shows "split_pdf e w pdf_file max_size_mb = Some \<lparr>ret = Inr [], after = w, log = []\<rparr> \<and>
         process_loop e max_size_mb (pdf_file # rest) (w, total_split, seen)
           = process_loop e max_size_mb rest (w, total_split, seen @ [(pdf_file, Inr [])])"
proof -
  obtain f where f: "files w pdf_file = Some f" "fbytes f \<noteq> 0"
    using assms(1) by (auto simp: PdfReader_def split: option.splits if_splits)
  have "file_size_mb = size_mb (fbytes f)"
    using assms(2) f(1) by (simp add: get_file_size_mb_def)
  then have "file_size_mb \<noteq> 0" using size_mb_pos[of "fbytes f"] f(2) by simp
  then have "split_pdf e w pdf_file max_size_mb = Some \<lparr>ret = Inr [], after = w, log = []\<rparr>"
    using assms by (simp add: split_pdf_def split_loop.simps)
  then show ?thesis by simp
qed

theorem no_pages_no_fragments_witness:
  "PdfReader demo_world blank_doc = Inr 0 \<and>
   get_file_size_mb demo_world blank_doc = Inr 5 \<and> (4::rat) < 5 \<and>
   split_pdf demo_env demo_world blank_doc 4
     = Some \<lparr>ret = Inr [], after = demo_world, log = []\<rparr> \<and>
   process_loop demo_env 4 [blank_doc] (demo_world, 0, [])
     = Some (demo_world, 0, [(blank_doc, Inr [])])"
proof -
  have 1: "PdfReader demo_world blank_doc = Inr 0" by (simp add: PdfReader_def demo_files)
  have 2: "get_file_size_mb demo_world blank_doc = Inr 5" by (rule demo_sizes)
  have 3: "(4::rat) < 5" by simp
  from no_pages_no_fragments[OF 1 2 3, of demo_env "[]" 0 "[]"] 1 2 show ?thesis by simp
qed

section \<open>Names of the fragments\<close>

lemma digit_inj:
  assumes "a < 10" "b < 10" "digit a = digit b"
  shows "a = b"
proof -
  have "distinct ''0123456789''" by simp
  moreover have "a < length ''0123456789''" "b < length ''0123456789''" using assms by simp_all
  ultimately show ?thesis using assms(3) unfolding digit_def by (simp only: nth_eq_iff_index_eq)
qed

lemma str_nonempty: "str n \<noteq> []"
  by (subst str.simps) simp

lemma str_inj: "str n = str m \<Longrightarrow> n = m"
proof (induction n arbitrary: m rule: str.induct)
  case (1 n)
  show ?case
  proof (cases "n < 10")
    case n: True
    show ?thesis
    proof (cases "m < 10")
      case True
      with n 1(2) show ?thesis by (simp add: str.simps[of n] str.simps[of m] digit_inj)
    next
      case False
      with n 1(2) show ?thesis
        using str_nonempty[of "m div 10"] by (simp add: str.simps[of n] str.simps[of m])
    qed
  next
    case n: False
    show ?thesis
    proof (cases "m < 10")
      case True
      with n 1(2) show ?thesis
        using str_nonempty[of "n div 10"] by (simp add: str.simps[of n] str.simps[of m])
    next
      case False
      with n 1(2) have eq: "str (n div 10) = str (m div 10)" "digit (n mod 10) = digit (m mod 10)"
        by (simp_all add: str.simps[of n] str.simps[of m])
      from eq(1) have "n div 10 = m div 10" using n by (rule 1(1)[rotated])
      moreover from eq(2) have "n mod 10 = m mod 10" by (intro digit_inj) simp_all
      ultimately show ?thesis by (metis div_mult_mod_eq)
    qed
  qed
qed

lemma part_path_inj: "part_path ip k = part_path ip k' \<Longrightarrow> k = k'"
  by (simp add: part_path_def str_inj)


text \<open>
  C9 (as the code has it). The fragments \<open>split_pdf\<close> returns are, in order, the files
  \<open>{stem}_part1.pdf\<close>, \<open>{stem}_part2.pdf\<close>, \<dots> in the directory of the source document,
  numbered from 1 without gaps, and each of them is on the disk when \<open>split_pdf\<close> returns.
  The extension is the literal \<open>.pdf\<close> of the format string, not the extension of the
  source.
\<close>

theorem fragment_names:
  assumes "split_pdf e w input_path max_size_mb = Some r"
    and "ret r = Inr outs"
  shows "outs = map (\<lambda>k. Path (parent input_path)
                               (stem input_path @ ''_part'' @ str k @ ''.pdf''))
                    [1..<Suc (length outs)] \<and>
         (\<forall>p\<in>set outs. files (after r) p \<noteq> None)"
  using assms(1)
proof (cases rule: split_pdf_cases)
  case (under s)
  then show ?thesis using assms(2) by simp
next
  case (error err)
  then show ?thesis using assms(2) by simp
next
  case (loop N s)
  let ?f = "part_path input_path"
  have "\<exists>r. split_loop e input_path max_size_mb N
              \<lparr>current_page = 0, pages_per_chunk = pages_estimate N max_size_mb s,
               chunk_num = 1, output_files = [], disk = w, attempts = []\<rparr> = Some r \<and>
            (\<forall>outs. ret r = Inr outs \<longrightarrow>
               outs = map ?f [1..<Suc (length outs)] \<and>
               (\<forall>p\<in>set outs. files (after r) p \<noteq> None))"
  proof (rule split_loop_rule[where I = "\<lambda>s. 0 < pages_per_chunk s \<and> 1 \<le> chunk_num s \<and>
            output_files s = map ?f [1..<chunk_num s] \<and>
            (\<forall>k. 1 \<le> k \<and> k < chunk_num s \<longrightarrow> files (disk s) (?f k) \<noteq> None)"], goal_cases)
    case 1
    show ?case by (simp add: pages_estimate_pos)
  next
    case (2 s)
    then show ?case by simp
  next
    case (3 s s')
    from 3(3,2) show ?case
    proof (cases rule: plan_step_NextE)
      case (discard b)
      then show ?thesis using 3(1) by (auto dest: part_path_inj)
    next
      case (accept b)
      then show ?thesis using 3(1) by (auto simp: less_Suc_eq)
    qed
  next
    case (4 s err w l)
    then show ?case by simp
  next
    case (5 s)
    then have inv: "1 \<le> chunk_num s" "output_files s = map ?f [1..<chunk_num s]"
      "\<forall>k. 1 \<le> k \<and> k < chunk_num s \<longrightarrow> files (disk s) (?f k) \<noteq> None"
      by simp_all
    have "length (output_files s) = chunk_num s - 1" by (simp add: inv(2))
    then have "Suc (length (output_files s)) = chunk_num s" using inv(1) by simp
    then have "output_files s = map ?f [1..<Suc (length (output_files s))]"
      using inv(2) by simp
    moreover have "\<forall>p\<in>set (output_files s). files (disk s) p \<noteq> None"
      using inv(3) by (auto simp: inv(2))
    ultimately show ?case by simp
  qed
  with loop(4) assms(2)
  have "outs = map ?f [1..<Suc (length outs)] \<and> (\<forall>p\<in>set outs. files (after r) p \<noteq> None)"
    by fastforce
  moreover have "?f = (\<lambda>k. Path (parent input_path)
                              (stem input_path @ ''_part'' @ str k @ ''.pdf''))"
    by (rule ext) (simp add: part_path_def)
  ultimately show ?thesis by metis
qed

theorem fragment_names_witness:
  "split_pdf demo_env demo_world demo_doc 4 = Some demo_result \<and>
   ret demo_result = Inr [Path ''/data'' ''report_part1.pdf'', Path ''/data'' ''report_part2.pdf'',
                          Path ''/data'' ''report_part3.pdf''] \<and>
   parent demo_doc = ''/data'' \<and> stem demo_doc = ''report'' \<and>
   [Path ''/data'' ''report_part1.pdf'', Path ''/data'' ''report_part2.pdf'',
    Path ''/data'' ''report_part3.pdf'']
     = map (\<lambda>k. Path ''/data'' (''report'' @ ''_part'' @ str k @ ''.pdf'')) [1..<Suc 3] \<and>
   files (after demo_result) (Path ''/data'' ''report_part1.pdf'') \<noteq> None \<and>
   files (after demo_result) (Path ''/data'' ''report_part2.pdf'') \<noteq> None \<and>
   files (after demo_result) (Path ''/data'' ''report_part3.pdf'') \<noteq> None"
proof -
  have 1: "ret demo_result = Inr [Path ''/data'' ''report_part1.pdf'',
             Path ''/data'' ''report_part2.pdf'', Path ''/data'' ''report_part3.pdf'']"
    by (simp add: demo_result_def)
  from fragment_names[OF demo_run 1] demo_run 1 show ?thesis
    by (simp add: demo_stems str.simps digit_def upt_rec)
qed

text \<open>
  C9 as stated fails: for the source \<open>SCAN.PDF\<close>, which \<open>process_pdfs\<close> accepts because
  it compares the lower-cased suffix, the fragments are named \<open>SCAN_part1.pdf\<close>, \<dots>; their
  extension is \<open>.pdf\<close> and the source's is \<open>.PDF\<close>.
\<close>

theorem fragment_extension_counterexample:
  "map_option ret (split_pdf demo_env demo_world upper_doc 4)
     = Some (Inr [Path ''/data'' ''SCAN_part1.pdf'', Path ''/data'' ''SCAN_part2.pdf'',
                  Path ''/data'' ''SCAN_part3.pdf'']) \<and>
   suffix (Path ''/data'' ''SCAN_part1.pdf'') = ''.pdf'' \<and>
   suffix upper_doc = ''.PDF'' \<and>
   suffix (Path ''/data'' ''SCAN_part1.pdf'') \<noteq> suffix upper_doc"
proof -
  have "map_option ret (split_pdf demo_env demo_world upper_doc 4)
     = Some (Inr [Path ''/data'' ''SCAN_part1.pdf'', Path ''/data'' ''SCAN_part2.pdf'',
                  Path ''/data'' ''SCAN_part3.pdf''])"
    apply (simp add: split_pdf_def demo_sizes PdfReader_def demo_files demo_estimate)
    apply (subst split_loop.simps, simp add: eval_step demo_env_def)
    apply (subst split_loop.simps, simp add: eval_step demo_env_def)
    apply (subst split_loop.simps, simp add: eval_step demo_env_def)
    apply (subst split_loop.simps, simp add: eval_step demo_env_def)
    apply (subst split_loop.simps, simp add: eval_step demo_env_def)
    done
  moreover have "suffix (Path ''/data'' ''SCAN_part1.pdf'') = ''.pdf''"
    by (simp add: suffix_def)
  moreover have "suffix upper_doc = ''.PDF''"
    by (simp add: suffix_def upper_doc_def)
  ultimately show ?thesis by simp
qed

section \<open>Files left on the disk\<close>

lemma part_path_eq: "part_path ip k = part_path ip k' \<longleftrightarrow> k = k'"
  by (auto dest: part_path_inj)

lemma interrupted_run:
  "split_pdf interrupted_env demo_world demo_doc 4 = Some interrupted_result"
  apply (simp add: split_pdf_def demo_sizes PdfReader_def demo_files demo_estimate)
  apply (subst split_loop.simps, simp add: eval_step interrupted_env_def)
  apply (subst split_loop.simps, simp add: eval_step interrupted_env_def)
  apply (simp add: interrupted_result_def demo_world_def upt_rec numeral_2_eq_2)
  done

lemma retry_after_delete:
  assumes "plan_step e ip c N s = Next s'" and "current_page s < N"
    and "a_verdict (last (attempts s')) = Discarded b"
  shows "files (disk s') (a_path (last (attempts s'))) = None \<and>
         a_path (last (attempts s')) = part_path ip (chunk_num s') \<and>
         current_page s' = current_page s"
  using assms(1,2)
proof (cases rule: plan_step_NextE)
  case (discard b)
  then show ?thesis by simp
next
  case (accept b)
  then show ?thesis using assms(3) by simp
qed

text \<open>
  C6 (as the code has it). Let \<open>split_pdf\<close> return or raise, with the attempts it made
  in its log.

  \<^item> A path whose content differs from before the call is the path of an accepted fragment
    or, when the call raised, the path of the candidate whose write or deletion failed.
  \<^item> Every accepted fragment is on the disk as it was measured, and it is within the
    ceiling or has a single page.
  \<^item> When the call raised, the file at the path of the last candidate is known. Either the
    deletion of an oversized candidate of several pages failed, the error is the one of
    \<open>os.remove\<close>, and the candidate is on the disk in full. Or the write failed and the
    error is the one of the write; then the path holds the partial file if the write left
    one, and otherwise nothing if the failed write was a retry, because the discarded
    candidate had been deleted, or what it held before the call if it was the first write
    to this path. Nothing is cleaned up.
  \<^item> Every iteration that discards a candidate ends with no file at the path of the
    candidate, which is the path the retry writes next, from the same first page.

  So an oversized file of several pages written by the call is on the disk afterwards only
  when its deletion failed, and a partial file only when the last write failed.
\<close>

theorem no_stray_files:
  assumes "split_pdf e w input_path max_size_mb = Some r"
  shows "(\<forall>p. files (after r) p \<noteq> files w p \<longrightarrow>
              p \<in> set (map a_path (accepted (log r))) \<or>
              (\<exists>err. ret r = Inl err) \<and> log r \<noteq> [] \<and> p = a_path (last (log r))) \<and>
         (\<forall>a\<in>set (log r). \<forall>b. a_verdict a = Accepted b \<longrightarrow>
              files (after r) (a_path a)
                = Some \<lparr>fbytes = b, fpages = Some (length (a_pages a))\<rparr> \<and>
              (size_mb b \<le> max_size_mb \<or> length (a_pages a) = 1)) \<and>
         (\<forall>err. ret r = Inl err \<and> log r \<noteq> [] \<longrightarrow>
              (\<exists>b. a_verdict (last (log r)) = RemoveFailed b \<and> err = OSError \<and>
                   serialize e (tick w + length (butlast (log r))) (a_pages (last (log r)))
                     = Written b \<and>
                   max_size_mb < size_mb b \<and> 1 < length (a_pages (last (log r))) \<and>
                   \<not> remove_ok e (tick w + length (butlast (log r))) \<and>
                   files (after r) (a_path (last (log r)))
                     = Some \<lparr>fbytes = b, fpages = Some (length (a_pages (last (log r))))\<rparr>) \<or>
              (\<exists>left. a_verdict (last (log r)) = NotWritten err \<and>
                   serialize e (tick w + length (butlast (log r))) (a_pages (last (log r)))
                     = WriteFailed err left \<and>
                   files (after r) (a_path (last (log r)))
                     = (case left of
                          Some b \<Rightarrow> Some \<lparr>fbytes = b, fpages = None\<rparr>
                        | None \<Rightarrow>
                            if butlast (log r) \<noteq> [] \<and>
                               (\<exists>b. a_verdict (last (butlast (log r))) = Discarded b)
                            then None else files w (a_path (last (log r)))))) \<and>
         (\<forall>N s s' b. current_page s < N \<and>
              plan_step e input_path max_size_mb N s = Next s' \<and>
              a_verdict (last (attempts s')) = Discarded b \<longrightarrow>
              files (disk s') (a_path (last (attempts s'))) = None \<and>
              a_path (last (attempts s')) = part_path input_path (chunk_num s') \<and>
              current_page s' = current_page s)"
    (is "?A \<and> ?B \<and> ?C \<and> ?D")
proof -
  have retry: ?D by (blast dest: retry_after_delete)
  from assms have run: "?A \<and> ?B \<and> ?C"
  proof (cases rule: split_pdf_cases)
    case (under s)
    then show ?thesis by simp
  next
    case (error err)
    then show ?thesis by simp
  next
    case (loop N s)
    let ?f = "part_path input_path"
    let ?pending = "\<lambda>s. attempts s \<noteq> [] \<and> (\<exists>b. a_verdict (last (attempts s)) = Discarded b)"
    let ?kept = "\<lambda>l fs. \<forall>a\<in>set l. \<forall>b. a_verdict a = Accepted b \<longrightarrow>
                   fs (a_path a) = Some \<lparr>fbytes = b, fpages = Some (length (a_pages a))\<rparr> \<and>
                   (size_mb b \<le> max_size_mb \<or> length (a_pages a) = 1)"
    let ?changed = "\<lambda>r. \<forall>p. files (after r) p \<noteq> files w p \<longrightarrow>
                   p \<in> set (map a_path (accepted (log r))) \<or>
                   (\<exists>err. ret r = Inl err) \<and> log r \<noteq> [] \<and> p = a_path (last (log r))"
    let ?failed = "\<lambda>r. \<forall>err. ret r = Inl err \<and> log r \<noteq> [] \<longrightarrow>
                (\<exists>b. a_verdict (last (log r)) = RemoveFailed b \<and> err = OSError \<and>
                     serialize e (tick w + length (butlast (log r))) (a_pages (last (log r)))
                       = Written b \<and>
                     max_size_mb < size_mb b \<and> 1 < length (a_pages (last (log r))) \<and>
                     \<not> remove_ok e (tick w + length (butlast (log r))) \<and>
                     files (after r) (a_path (last (log r)))
                       = Some \<lparr>fbytes = b, fpages = Some (length (a_pages (last (log r))))\<rparr>) \<or>
                (\<exists>left. a_verdict (last (log r)) = NotWritten err \<and>
                     serialize e (tick w + length (butlast (log r))) (a_pages (last (log r)))
                       = WriteFailed err left \<and>
                     files (after r) (a_path (last (log r)))
                       = (case left of
                            Some b \<Rightarrow> Some \<lparr>fbytes = b, fpages = None\<rparr>
                          | None \<Rightarrow>
                              if butlast (log r) \<noteq> [] \<and>
                                 (\<exists>b. a_verdict (last (butlast (log r))) = Discarded b)
                              then None else files w (a_path (last (log r)))))"
    let ?I = "\<lambda>s. 0 < pages_per_chunk s \<and>
              (?pending s \<longrightarrow> current_page s < N) \<and>
              tick (disk s) = tick w + length (attempts s) \<and>
              (\<forall>p. files (disk s) p \<noteq> files w p \<longrightarrow>
                   p \<in> set (map a_path (accepted (attempts s))) \<or>
                   p = ?f (chunk_num s) \<and> ?pending s) \<and>
              (?pending s \<longrightarrow> files (disk s) (?f (chunk_num s)) = None) \<and>
              (\<forall>a\<in>set (attempts s). \<forall>b. a_verdict a = Accepted b \<longrightarrow>
                   a_path a = ?f (a_num a) \<and> a_num a < chunk_num s) \<and>
              ?kept (attempts s) (files (disk s))"
    have current: "files (disk s) (?f (chunk_num s))
                     = (if ?pending s then None else files w (?f (chunk_num s)))" if "?I s" for s
    proof (cases "?pending s")
      case True
      with that show ?thesis by simp
    next
      case False
      have "files (disk s) (?f (chunk_num s)) = files w (?f (chunk_num s))"
      proof (rule ccontr)
        assume "files (disk s) (?f (chunk_num s)) \<noteq> files w (?f (chunk_num s))"
        with that False have "?f (chunk_num s) \<in> set (map a_path (accepted (attempts s)))"
          by blast
        then obtain a where a: "a \<in> set (attempts s)" "is_accepted a"
          "a_path a = ?f (chunk_num s)"
          by (auto simp: accepted_def)
        from a(2) obtain b where "a_verdict a = Accepted b"
          by (cases "a_verdict a") (simp_all add: is_accepted_def)
        note a(1) this a(3)
        with that have "?f (a_num a) = ?f (chunk_num s)" "a_num a < chunk_num s" by auto
        then show False by (simp add: part_path_eq)
      qed
      with False show ?thesis by auto
    qed
    have "\<exists>r. split_loop e input_path max_size_mb N
                \<lparr>current_page = 0, pages_per_chunk = pages_estimate N max_size_mb s,
                 chunk_num = 1, output_files = [], disk = w, attempts = []\<rparr> = Some r \<and>
              (?changed r \<and> ?kept (log r) (files (after r)) \<and> ?failed r)"
    proof (rule split_loop_rule[where I = ?I], goal_cases)
      case 1
      show ?case by (simp add: pages_estimate_pos)
    next
      case (2 s)
      then show ?case by simp
    next
      case (3 s s')
      from 3(3,2) show ?case
      proof (cases rule: plan_step_NextE)
        case (discard b)
        then show ?thesis using 3(1,2)
          by (auto simp: accepted_def is_accepted_def part_path_eq)
      next
        case (accept b)
        show ?thesis using 3(1,2) accept(2,3)
          by (auto simp: accepted_def is_accepted_def less_Suc_eq part_path_eq)
      qed
    next
      case (4 s err w' l)
      note cur = current[OF 4(1)]
      from 4(3,2) show ?case
      proof (cases rule: plan_step_RaiseE)
        case (write_failed left)
        have changed: "?changed \<lparr>ret = Inl err, after = w', log = l\<rparr>"
          using write_failed 4(1)
          by (cases left) (auto simp: accepted_def is_accepted_def part_path_eq)
        have kept: "?kept l (files w')"
          using write_failed 4(1)
          by (cases left) (auto simp: accepted_def is_accepted_def part_path_eq)
        have failed: "?failed \<lparr>ret = Inl err, after = w', log = l\<rparr>"
          using write_failed 4(1) cur
          by (cases left) simp_all
        from changed kept failed show ?thesis by simp
      next
        case (remove_failed b)
        have changed: "?changed \<lparr>ret = Inl err, after = w', log = l\<rparr>"
          using remove_failed 4(1)
          by (auto simp: accepted_def is_accepted_def part_path_eq)
        have kept: "?kept l (files w')"
          using remove_failed 4(1)
          by (auto simp: accepted_def is_accepted_def part_path_eq)
        have failed: "?failed \<lparr>ret = Inl err, after = w', log = l\<rparr>"
          using remove_failed 4(1) by simp
        from changed kept failed show ?thesis by simp
      qed
    next
      case (5 s)
      then show ?case by auto
    qed
  with loop(4) show ?thesis by auto
  qed
  from run retry show ?thesis
    by (elim conjE, intro conjI)
qed

theorem no_stray_files_witness:
  "split_pdf demo_env demo_world demo_doc 4 = Some demo_result \<and>
   files (after demo_result) (Path ''/data'' ''report_part1.pdf'')
     \<noteq> files demo_world (Path ''/data'' ''report_part1.pdf'') \<and>
   Path ''/data'' ''report_part1.pdf'' \<in> set (map a_path (accepted (log demo_result))) \<and>
   log demo_result ! 1 \<in> set (log demo_result) \<and>
   a_verdict (log demo_result ! 1) = Accepted 2097152 \<and>
   files (after demo_result) (a_path (log demo_result ! 1))
     = Some \<lparr>fbytes = 2097152, fpages = Some (length (a_pages (log demo_result ! 1)))\<rparr> \<and>
   size_mb 2097152 \<le> 4 \<and>
   split_pdf interrupted_env demo_world demo_doc 4 = Some interrupted_result \<and>
   ret interrupted_result = Inl WriteError \<and>
   a_verdict (last (butlast (log interrupted_result))) = Discarded 5242880 \<and>
   a_verdict (last (log interrupted_result)) = NotWritten WriteError \<and>
   serialize interrupted_env (tick demo_world + length (butlast (log interrupted_result)))
     (a_pages (last (log interrupted_result))) = WriteFailed WriteError None \<and>
   files (after interrupted_result) (a_path (last (log interrupted_result))) = None \<and>
   plan_step interrupted_env demo_doc 4 5
     \<lparr>current_page = 0, pages_per_chunk = 4, chunk_num = 1, output_files = [],
      disk = demo_world, attempts = []\<rparr>
     = Next \<lparr>current_page = 0, pages_per_chunk = 2, chunk_num = 1, output_files = [],
              disk = \<lparr>files = (files demo_world)(Path ''/data'' ''report_part1.pdf'' := None),
                       tick = 1\<rparr>,
              attempts = [\<lparr>a_start = 0, a_ppc = 4, a_num = 1, a_pages = [0, 1, 2, 3],
                           a_path = Path ''/data'' ''report_part1.pdf'',
                           a_verdict = Discarded 5242880\<rparr>]\<rparr> \<and>
   ((files demo_world)(Path ''/data'' ''report_part1.pdf'' := None))
     (Path ''/data'' ''report_part1.pdf'') = None"
proof -
  let ?s0 = "\<lparr>current_page = 0, pages_per_chunk = 4, chunk_num = 1, output_files = [],
              disk = demo_world, attempts = []\<rparr>"
  let ?s1 = "\<lparr>current_page = 0, pages_per_chunk = 2, chunk_num = 1, output_files = [],
              disk = \<lparr>files = (files demo_world)(Path ''/data'' ''report_part1.pdf'' := None),
                       tick = 1\<rparr>,
              attempts = [\<lparr>a_start = 0, a_ppc = 4, a_num = 1, a_pages = [0, 1, 2, 3],
                           a_path = Path ''/data'' ''report_part1.pdf'',
                           a_verdict = Discarded 5242880\<rparr>]\<rparr>"
  have 1: "files demo_world (Path ''/data'' ''report_part1.pdf'') = None"
    by (simp add: demo_world_def demo_doc_def small_doc_def corrupt_doc_def blank_doc_def
          upper_doc_def)
  have 2: "ret demo_result \<noteq> Inl err" for err by (simp add: demo_result_def)
  have 3: "files (after demo_result) (Path ''/data'' ''report_part1.pdf'')
             = Some \<lparr>fbytes = 2097152, fpages = Some 2\<rparr>"
    by (simp add: demo_result_def)
  have 4: "log demo_result ! 1
             = \<lparr>a_start = 0, a_ppc = 2, a_num = 1, a_pages = [0, 1],
                a_path = Path ''/data'' ''report_part1.pdf'', a_verdict = Accepted 2097152\<rparr>"
    by (simp add: demo_result_def demo_log_def)
  have 5: "Path ''/data'' ''report_part1.pdf'' \<in> set (map a_path (accepted (log demo_result)))"
    by (simp add: demo_result_def demo_log_def accepted_def is_accepted_def)
  have 6: "log demo_result ! 1 \<in> set (log demo_result)"
    by (simp add: demo_result_def demo_log_def)
  have 7: "size_mb 2097152 \<le> 4" by (simp add: size_mb_exact)
  have 8: "ret interrupted_result = Inl WriteError" "log interrupted_result \<noteq> []"
    "a_verdict (last (butlast (log interrupted_result))) = Discarded 5242880"
    "butlast (log interrupted_result) \<noteq> []"
    "a_verdict (last (log interrupted_result)) = NotWritten WriteError"
    "serialize interrupted_env (tick demo_world + length (butlast (log interrupted_result)))
       (a_pages (last (log interrupted_result))) = WriteFailed WriteError None"
    by (simp_all add: interrupted_result_def interrupted_env_def demo_world_def)
  have 9: "plan_step interrupted_env demo_doc 4 5 ?s0 = Next ?s1"
    apply (simp add: eval_step interrupted_env_def)
    apply (simp add: demo_world_def upt_rec)
    done
  from no_stray_files[OF interrupted_run] 8
  have 10: "files (after interrupted_result) (a_path (last (log interrupted_result))) = None"
    by auto
  from no_stray_files[OF interrupted_run] 9
  have 11: "files (disk ?s1) (a_path (last (attempts ?s1))) = None"
    by (elim conjE allE[of _ 5] allE[of _ ?s0] allE[of _ ?s1] allE[of _ 5242880]) simp
  from no_stray_files[OF demo_run] demo_run interrupted_run 1 2 3 4 5 6 7 8 9 10 11
  show ?thesis by simp
qed

text \<open>
  C6 as stated fails: when the first write fails after 100 bytes, \<open>split_pdf\<close> raises the
  write error, no fragment has been accepted, and the partial file \<open>report_part1.pdf\<close>,
  which did not exist before, is left on the disk.
\<close>

theorem partial_file_counterexample:
  "map_option ret (split_pdf failing_env demo_world demo_doc 4) = Some (Inl WriteError) \<and>
   map_option (\<lambda>r. accepted (log r)) (split_pdf failing_env demo_world demo_doc 4) = Some [] \<and>
   map_option (\<lambda>r. files (after r) (Path ''/data'' ''report_part1.pdf''))
     (split_pdf failing_env demo_world demo_doc 4)
       = Some (Some \<lparr>fbytes = 100, fpages = None\<rparr>) \<and>
   files demo_world (Path ''/data'' ''report_part1.pdf'') = None"
proof -
  have "split_pdf failing_env demo_world demo_doc 4
          = Some \<lparr>ret = Inl WriteError,
                  after = \<lparr>files = (files demo_world)
                             (Path ''/data'' ''report_part1.pdf''
                                \<mapsto> \<lparr>fbytes = 100, fpages = None\<rparr>),
                           tick = 1\<rparr>,
                  log = [\<lparr>a_start = 0, a_ppc = 4, a_num = 1, a_pages = [0, 1, 2, 3],
                          a_path = Path ''/data'' ''report_part1.pdf'',
                          a_verdict = NotWritten WriteError\<rparr>]\<rparr>"
    apply (simp add: split_pdf_def demo_sizes PdfReader_def demo_files demo_estimate)
    apply (subst split_loop.simps, simp add: eval_step failing_env_def)
    apply (simp add: demo_world_def upt_rec)
    done
  moreover have "files demo_world (Path ''/data'' ''report_part1.pdf'') = None"
    by (simp add: demo_world_def demo_doc_def small_doc_def corrupt_doc_def blank_doc_def
          upper_doc_def)
  ultimately show ?thesis by (simp add: accepted_def is_accepted_def)
qed

section \<open>Discarded candidates and the pages per chunk\<close>

lemma log_chain:
  assumes "split_pdf e w ip c = Some r"
  shows "successively follows (log r) \<and>
         (\<forall>a\<in>set (log r). \<forall>b.
            (a_verdict a = Accepted b \<longrightarrow> \<not> (c < size_mb b \<and> 1 < length (a_pages a))) \<and>
            (a_verdict a = Discarded b \<longrightarrow> c < size_mb b \<and> 1 < length (a_pages a)) \<and>
            (a_verdict a = RemoveFailed b \<longrightarrow> c < size_mb b \<and> 1 < length (a_pages a)) \<and>
            length (a_pages a) \<le> a_ppc a)"
  using assms
proof (cases rule: split_pdf_cases)
  case (under s)
  then show ?thesis by simp
next
  case (error err)
  then show ?thesis by simp
next
  case (loop N s)
  let ?V = "\<lambda>a. \<forall>b.
            (a_verdict a = Accepted b \<longrightarrow> \<not> (c < size_mb b \<and> 1 < length (a_pages a))) \<and>
            (a_verdict a = Discarded b \<longrightarrow> c < size_mb b \<and> 1 < length (a_pages a)) \<and>
            (a_verdict a = RemoveFailed b \<longrightarrow> c < size_mb b \<and> 1 < length (a_pages a)) \<and>
            length (a_pages a) \<le> a_ppc a"
  let ?new = "\<lambda>s a. a_start a = current_page s \<and> a_ppc a = pages_per_chunk s \<and>
                a_num a = chunk_num s"
  have "\<exists>r. split_loop e ip c N
              \<lparr>current_page = 0, pages_per_chunk = pages_estimate N c s,
               chunk_num = 1, output_files = [], disk = w, attempts = []\<rparr> = Some r \<and>
            (successively follows (log r) \<and> (\<forall>a\<in>set (log r). ?V a))"
  proof (rule split_loop_rule[where I = "\<lambda>s. 0 < pages_per_chunk s \<and>
            successively follows (attempts s) \<and> (\<forall>a\<in>set (attempts s). ?V a) \<and>
            (attempts s \<noteq> [] \<longrightarrow> (\<forall>a. ?new s a \<longrightarrow> follows (last (attempts s)) a))"],
         goal_cases)
    case 1
    show ?case by (simp add: pages_estimate_pos)
  next
    case (2 s)
    then show ?case by simp
  next
    case (3 s s')
    from 3(3,2) show ?case
      by (cases rule: plan_step_NextE)
         (use 3(1,2) in \<open>auto simp: successively_append_iff follows_def\<close>)
  next
    case (4 s err w' l)
    from 4(3,2) show ?case
      by (cases rule: plan_step_RaiseE)
         (use 4(1) in \<open>auto simp: successively_append_iff\<close>)
  next
    case (5 s)
    then show ?case by simp
  qed
  with loop(4) show ?thesis by auto
qed

lemma follows_ppc:
  assumes "follows a a'" and "\<forall>b. a_verdict a = Discarded b \<longrightarrow> 1 < a_ppc a"
  shows "a_ppc a' \<le> a_ppc a"
  using assms by (auto simp: follows_def split: verdict.splits)

lemma chain_ppc_sorted:
  assumes "successively follows l"
    and "\<forall>a\<in>set l. \<forall>b. a_verdict a = Discarded b \<longrightarrow> 1 < a_ppc a"
  shows "sorted_wrt (\<lambda>a a'. a_ppc a' \<le> a_ppc a) l"
proof -
  have "successively (\<lambda>a a'. a_ppc a' \<le> a_ppc a) l"
    using assms(1) by (rule successively_mono) (use assms(2) in \<open>auto intro: follows_ppc\<close>)
  moreover have "transp (\<lambda>a a'. a_ppc a' \<le> a_ppc a)" by (auto intro: transpI)
  ultimately show ?thesis using successively_conv_sorted_wrt by blast
qed

text \<open>
  C5. In every run, a candidate that measured above the ceiling with more than one page is
  never accepted, and a discarded candidate is one that measured above the ceiling with
  more than one page. The candidate written after a discarded one starts at the same page,
  with the pages per chunk halved by integer division (at least 1) and the same ordinal;
  the one written after an accepted candidate keeps the pages per chunk it found. Hence the
  pages per chunk never increase along a run: the reduced value is carried into all later
  chunks of the document.
\<close>

theorem discard_and_carry_forward:
  assumes "split_pdf e w input_path max_size_mb = Some r"
  shows "(\<forall>a\<in>set (log r). \<forall>b.
            (a_verdict a = Accepted b \<longrightarrow>
               \<not> (max_size_mb < size_mb b \<and> 1 < length (a_pages a))) \<and>
            (a_verdict a = Discarded b \<longrightarrow>
               max_size_mb < size_mb b \<and> 1 < length (a_pages a))) \<and>
         (\<forall>i. Suc i < length (log r) \<longrightarrow> follows (log r ! i) (log r ! Suc i)) \<and>
         (\<forall>i j. i \<le> j \<and> j < length (log r) \<longrightarrow> a_ppc (log r ! j) \<le> a_ppc (log r ! i))"
proof -
  note chain = log_chain[OF assms]
  have 1: "\<forall>i. Suc i < length (log r) \<longrightarrow> follows (log r ! i) (log r ! Suc i)"
    using chain by (simp add: successively_conv_nth)
  have "\<forall>a\<in>set (log r). \<forall>b. a_verdict a = Discarded b \<longrightarrow> 1 < a_ppc a"
    using chain by fastforce
  with chain have "sorted_wrt (\<lambda>a a'. a_ppc a' \<le> a_ppc a) (log r)"
    by (simp add: chain_ppc_sorted)
  then have "\<forall>i j. i < j \<longrightarrow> j < length (log r) \<longrightarrow> a_ppc (log r ! j) \<le> a_ppc (log r ! i)"
    by (simp add: sorted_wrt_iff_nth_less)
  then have 2: "\<forall>i j. i \<le> j \<and> j < length (log r) \<longrightarrow> a_ppc (log r ! j) \<le> a_ppc (log r ! i)"
    by (metis le_eq_less_or_eq order_refl)
  from chain 1 2 show ?thesis by simp
qed

theorem discard_and_carry_forward_witness:
  "split_pdf demo_env demo_world demo_doc 4 = Some demo_result \<and>
   log demo_result ! 0 \<in> set (log demo_result) \<and>
   a_verdict (log demo_result ! 0) = Discarded 5242880 \<and>
   4 < size_mb 5242880 \<and> length (a_pages (log demo_result ! 0)) = 4 \<and>
   a_start (log demo_result ! 1) = a_start (log demo_result ! 0) \<and>
   a_ppc (log demo_result ! 0) = 4 \<and> a_ppc (log demo_result ! 1) = 2 \<and>
   a_num (log demo_result ! 1) = a_num (log demo_result ! 0) \<and>
   a_verdict (log demo_result ! 1) = Accepted 2097152 \<and>
   size_mb 2097152 \<le> 4 \<and>
   Suc 1 < length (log demo_result) \<and>
   follows (log demo_result ! 0) (log demo_result ! 1) \<and>
   follows (log demo_result ! 1) (log demo_result ! 2) \<and>
   map a_ppc (log demo_result) = [4, 2, 2, 2] \<and>
   (0::nat) \<le> 3 \<and> 3 < length (log demo_result) \<and>
   a_ppc (log demo_result ! 3) \<le> a_ppc (log demo_result ! 0)"
  using discard_and_carry_forward[OF demo_run] demo_run
  by (simp add: demo_result_def demo_log_def size_mb_exact follows_def)

section \<open>Termination of the planning loop\<close>

lemma ceillog2_halve:
  assumes "1 < p"
  shows "Suc (ceillog2 (max 1 (p div 2))) \<le> ceillog2 p"
proof -
  have "ceillog2 p = 1 + ceillog2 ((p + 1) div 2)"
    using assms by (subst ceillog2_rec) simp
  moreover have "max 1 (p div 2) \<le> (p + 1) div 2" using assms by simp
  then have "ceillog2 (max 1 (p div 2)) \<le> ceillog2 ((p + 1) div 2)" by (rule ceillog2_mono)
  ultimately show ?thesis by simp
qed

lemma retries_bounded:
  assumes "split_pdf e w ip c = Some r"
  shows "(\<forall>cs. filter (\<lambda>a. a_start a = cs) (log r) \<noteq> [] \<longrightarrow>
            length (filter (\<lambda>a. a_start a = cs) (log r))
              \<le> ceillog2 (a_ppc (hd (filter (\<lambda>a. a_start a = cs) (log r)))) + 1) \<and>
         (\<forall>a\<in>set (log r). a_pages a \<noteq> [])"
  using assms
proof (cases rule: split_pdf_cases)
  case (under s)
  then show ?thesis by simp
next
  case (error err)
  then show ?thesis by simp
next
  case (loop N s)
  let ?at = "\<lambda>l cs. filter (\<lambda>a. a_start a = cs) l"
  let ?B = "\<lambda>l cs. ?at l cs \<noteq> [] \<longrightarrow> length (?at l cs) \<le> ceillog2 (a_ppc (hd (?at l cs))) + 1"
  have "\<exists>r. split_loop e ip c N
              \<lparr>current_page = 0, pages_per_chunk = pages_estimate N c s,
               chunk_num = 1, output_files = [], disk = w, attempts = []\<rparr> = Some r \<and>
            ((\<forall>cs. ?B (log r) cs) \<and> (\<forall>a\<in>set (log r). a_pages a \<noteq> []))"
  proof (rule split_loop_rule[where I = "\<lambda>s. 0 < pages_per_chunk s \<and>
            (\<forall>a\<in>set (attempts s). a_start a \<le> current_page s \<and> a_pages a \<noteq> []) \<and>
            (\<forall>cs. cs \<noteq> current_page s \<longrightarrow> ?B (attempts s) cs) \<and>
            (?at (attempts s) (current_page s) \<noteq> [] \<longrightarrow>
               length (?at (attempts s) (current_page s)) + ceillog2 (pages_per_chunk s)
                 \<le> ceillog2 (a_ppc (hd (?at (attempts s) (current_page s)))))"],
         goal_cases)
    case 1
    show ?case by (simp add: pages_estimate_pos)
  next
    case (2 s)
    then show ?case by simp
  next
    case (3 s s')
    from 3(3,2) show ?case
    proof (cases rule: plan_step_NextE)
      case (discard b)
      from discard(3) have p: "1 < pages_per_chunk s" by simp
      note h = ceillog2_halve[OF p]
      have "current_page s < min (current_page s + pages_per_chunk s) N"
        using discard(3) by linarith
      then have ne: "[current_page s..<min (current_page s + pages_per_chunk s) N] \<noteq> []"
        unfolding upt_eq_Nil_conv by linarith
      show ?thesis using 3(1) discard(5) h ne by (auto simp: hd_append)
    next
      case (accept b)
      have lt: "current_page s < min (current_page s + pages_per_chunk s) N"
        using 3(1,2) by simp
      have empty: "?at (attempts s) (min (current_page s + pages_per_chunk s) N) = []"
        using 3(1) lt by (auto simp: filter_empty_conv)
      show ?thesis using 3(1) accept(3) lt empty
        by (auto simp: hd_append)
    qed
  next
    case (4 s err w' l)
    have lt: "current_page s < min (current_page s + pages_per_chunk s) N"
      using 4(1,2) by simp
    from 4(3,2) show ?case
      by (cases rule: plan_step_RaiseE) (use 4(1) lt in \<open>auto simp: hd_append\<close>)
  next
    case (5 s)
    have "?B (attempts s) cs" for cs
    proof (cases "cs = current_page s")
      case True
      with 5(1) show ?thesis by auto
    next
      case False
      with 5(1) show ?thesis by blast
    qed
    with 5(1) show ?case by simp
  qed
  with loop(4) show ?thesis by auto
qed


text \<open>
  C3. \<open>split_pdf\<close> returns for every document, ceiling and behaviour of the serialiser
  (a result or a raised error, never a loop without end). In its run, the candidates written
  for one \<open>chunk_start\<close> number at most \<open>\<lceil>log2 p\<rceil> + 1\<close>, where \<open>p\<close> is the pages per chunk
  of the first of them: every retry halves the pages per chunk, which stay at least 1.
  Every accepted fragment has at least one page, and the candidate written after an
  accepted one starts at a strictly larger page index.
\<close>

theorem planning_terminates:
  "\<exists>r. split_pdf e w input_path max_size_mb = Some r \<and>
       (\<forall>cs. filter (\<lambda>a. a_start a = cs) (log r) \<noteq> [] \<longrightarrow>
          length (filter (\<lambda>a. a_start a = cs) (log r))
            \<le> ceillog2 (a_ppc (hd (filter (\<lambda>a. a_start a = cs) (log r)))) + 1) \<and>
       (\<forall>a\<in>set (accepted (log r)). 1 \<le> length (a_pages a)) \<and>
       (\<forall>i. Suc i < length (log r) \<and> is_accepted (log r ! i) \<longrightarrow>
          a_start (log r ! i) < a_start (log r ! Suc i))"
proof -
  obtain r where r: "split_pdf e w input_path max_size_mb = Some r"
    using split_pdf_total by blast
  note bound = retries_bounded[OF r] and chain = log_chain[OF r]
  have pages: "\<forall>a\<in>set (accepted (log r)). 1 \<le> length (a_pages a)"
    using bound by (auto simp: accepted_def Suc_le_eq)
  have "a_start (log r ! i) < a_start (log r ! Suc i)"
    if "Suc i < length (log r)" "is_accepted (log r ! i)" for i
  proof -
    have "follows (log r ! i) (log r ! Suc i)"
      using chain that(1) by (simp add: successively_conv_nth)
    moreover have "a_pages (log r ! i) \<noteq> []" using bound that(1) by simp
    ultimately show ?thesis using that(2)
      by (auto simp: follows_def is_accepted_def split: verdict.splits)
  qed
  with r bound pages show ?thesis by blast
qed

theorem planning_terminates_witness:
  "split_pdf demo_env demo_world demo_doc 4 = Some demo_result \<and>
   map a_start (log demo_result) = [0, 0, 2, 4] \<and>
   length (filter (\<lambda>a. a_start a = 0) (log demo_result)) = 2 \<and>
   a_ppc (hd (filter (\<lambda>a. a_start a = 0) (log demo_result))) = 4 \<and>
   ceillog2 4 = 2 \<and>
   filter (\<lambda>a. a_start a = 0) (log demo_result) \<noteq> [] \<and>
   length (filter (\<lambda>a. a_start a = 0) (log demo_result))
     \<le> ceillog2 (a_ppc (hd (filter (\<lambda>a. a_start a = 0) (log demo_result)))) + 1 \<and>
   map (\<lambda>a. length (a_pages a)) (accepted (log demo_result)) = [2, 2, 1] \<and>
   Suc 1 < length (log demo_result) \<and> is_accepted (log demo_result ! 1) \<and>
   a_start (log demo_result ! 1) < a_start (log demo_result ! Suc 1)"
proof -
  have c4: "ceillog2 4 = 2" using ceillog2_2_power[of 2] by simp
  have facts:
    "map a_start (log demo_result) = [0, 0, 2, 4]"
    "length (filter (\<lambda>a. a_start a = 0) (log demo_result)) = 2"
    "a_ppc (hd (filter (\<lambda>a. a_start a = 0) (log demo_result))) = 4"
    "map (\<lambda>a. length (a_pages a)) (accepted (log demo_result)) = [2, 2, 1]"
    "Suc 1 < length (log demo_result)" "is_accepted (log demo_result ! 1)"
    "a_start (log demo_result ! 1) < a_start (log demo_result ! Suc 1)"
    "filter (\<lambda>a. a_start a = 0) (log demo_result) \<noteq> []"
    by (simp_all add: demo_result_def demo_log_def accepted_def is_accepted_def)
  from planning_terminates[of demo_env demo_world demo_doc 4] demo_run
  have "(\<forall>cs. filter (\<lambda>a. a_start a = cs) (log demo_result) \<noteq> [] \<longrightarrow>
          length (filter (\<lambda>a. a_start a = cs) (log demo_result))
            \<le> ceillog2 (a_ppc (hd (filter (\<lambda>a. a_start a = cs) (log demo_result)))) + 1) \<and>
        (\<forall>a\<in>set (accepted (log demo_result)). 1 \<le> length (a_pages a))"
    by simp
  with demo_run c4 facts show ?thesis by simp
qed

section \<open>The batch loop\<close>

lemma process_loop_spec:
  "\<exists>w' tail. process_loop e c pdf_files (w, n, seen)
                = Some (w', n + length (filter (\<lambda>x. was_split (snd x)) tail), seen @ tail) \<and>
             map fst tail = pdf_files \<and> replay e c w tail = Some w'"
proof (induction pdf_files arbitrary: w n seen)
  case Nil
  show ?case by simp
next
  case (Cons f rest)
  obtain r where r: "split_pdf e w f c = Some r" using split_pdf_total by blast
  define n1 where "n1 = (if was_split (ret r) then n + 1 else n)"
  have step: "process_loop e c (f # rest) (w, n, seen)
                = process_loop e c rest (after r, n1, seen @ [(f, ret r)])"
    using r by (auto simp: n1_def was_split_def split: sum.splits)
  from Cons.IH[of "after r" n1 "seen @ [(f, ret r)]"] obtain w' tail where
    IH: "process_loop e c rest (after r, n1, seen @ [(f, ret r)])
           = Some (w', n1 + length (filter (\<lambda>x. was_split (snd x)) tail),
                   (seen @ [(f, ret r)]) @ tail)"
      "map fst tail = rest" "replay e c (after r) tail = Some w'"
    by blast
  let ?tail = "(f, ret r) # tail"
  have a: "process_loop e c (f # rest) (w, n, seen)
          = Some (w', n + length (filter (\<lambda>x. was_split (snd x)) ?tail), seen @ ?tail)"
    using step IH(1) by (simp add: n1_def)
  have b: "map fst ?tail = f # rest" using IH(2) by simp
  have c: "replay e c w ?tail = Some w'" using r IH(3) by simp
  show ?case
    by (rule exI[of _ w'], rule exI[of _ "?tail"]) (intro conjI a b c)
qed

text \<open>
  C7. \<open>process_pdfs\<close> never raises: whatever \<open>split_pdf\<close> raises for one file is caught
  and the loop goes on. Its outcomes are those of \<open>split_pdf\<close> on every file of the batch,
  in order, each call made on the disk the previous one left, whether that one returned or
  raised. The number in the summary is the number of files for which \<open>split_pdf\<close> returned
  a non-empty list: files under the ceiling (empty list) and files that failed are not
  counted.
\<close>

theorem batch_isolation:
  "\<exists>r. process_pdfs e w pdf_files max_size_mb = Some r \<and>
       map fst (outcomes r) = pdf_files \<and>
       replay e max_size_mb w (outcomes r) = Some (final r) \<and>
       (pdf_files \<noteq> [] \<longrightarrow>
          summary r = Some (length (filter (\<lambda>x. was_split (snd x)) (outcomes r))))"
proof (cases "pdf_files = []")
  case True
  then show ?thesis by (simp add: process_pdfs_def)
next
  case False
  from process_loop_spec[of e max_size_mb pdf_files w 0 "[]"] obtain w' tail where
    "process_loop e max_size_mb pdf_files (w, 0, [])
       = Some (w', length (filter (\<lambda>x. was_split (snd x)) tail), tail)"
    "map fst tail = pdf_files" "replay e max_size_mb w tail = Some w'"
    by auto
  with False show ?thesis by (simp add: process_pdfs_def)
qed

lemma demo_corrupt:
  "split_pdf demo_env demo_world corrupt_doc 4
     = Some \<lparr>ret = Inl PdfReadError, after = demo_world, log = []\<rparr>"
  by (simp add: split_pdf_def demo_sizes PdfReader_def demo_files)

lemma demo_small:
  "split_pdf demo_env demo_world small_doc 4 = Some \<lparr>ret = Inr [], after = demo_world, log = []\<rparr>"
  by (simp add: split_pdf_def demo_sizes)

theorem batch_isolation_witness:
  "process_pdfs demo_env demo_world [corrupt_doc, small_doc, demo_doc] 4
     = Some \<lparr>summary = Some 1, final = after demo_result,
             outcomes = [(corrupt_doc, Inl PdfReadError), (small_doc, Inr []),
                         (demo_doc, ret demo_result)]\<rparr> \<and>
   [corrupt_doc, small_doc, demo_doc] \<noteq> [] \<and>
   \<not> was_split (Inl PdfReadError) \<and> \<not> was_split (Inr []) \<and> was_split (ret demo_result) \<and>
   Some (1::nat) = Some (length (filter (\<lambda>x. was_split (snd x))
       [(corrupt_doc, Inl PdfReadError), (small_doc, Inr []), (demo_doc, ret demo_result)])) \<and>
   replay demo_env 4 demo_world
     [(corrupt_doc, Inl PdfReadError), (small_doc, Inr []), (demo_doc, ret demo_result)]
       = Some (after demo_result)"
proof -
  have run: "process_pdfs demo_env demo_world [corrupt_doc, small_doc, demo_doc] 4
     = Some \<lparr>summary = Some 1, final = after demo_result,
             outcomes = [(corrupt_doc, Inl PdfReadError), (small_doc, Inr []),
                         (demo_doc, ret demo_result)]\<rparr>"
    by (simp add: process_pdfs_def demo_corrupt demo_small demo_run)
       (simp add: demo_result_def)
  have ws: "\<not> was_split (Inl PdfReadError)" "\<not> was_split (Inr [])" "was_split (ret demo_result)"
    by (simp_all add: was_split_def demo_result_def)
  from batch_isolation[of demo_env demo_world "[corrupt_doc, small_doc, demo_doc]" 4] run ws
  show ?thesis by simp
qed

section \<open>The initial estimate\<close>

lemma py_int_nonneg: "0 \<le> x \<Longrightarrow> py_int x = \<lfloor>x\<rfloor>"
  by (simp add: py_int_def)

lemma fl_zero: "fl 0 = 0"
  by (simp add: fl_def)

text \<open>
  C8 (as the code has it). The estimate is computed in floats. It equals
  \<open>max(1, floor(total_pages * ceiling / size))\<close> for the exact quotient whenever the ceiling
  is a float of the form \<open>m / 2 ^ j\<close> with \<open>total_pages * m < 2 ^ 33\<close> (the default 4.0 and
  every ceiling such as 0.5 or 2.5) and the file is shorter than \<open>2 ^ 53\<close> bytes: then the
  product is exact and the rounding of the quotient cannot reach the next integer.
\<close>

theorem estimate_exact:
  assumes b: "0 < b" "b < 2 ^ 53"
    and small: "total_pages * m * 2 ^ 20 < 2 ^ 53"
  shows "pages_estimate total_pages (of_nat m / 2 ^ j) (size_mb b)
           = nat (max 1 \<lfloor>of_nat total_pages * (of_nat m / 2 ^ j) / (of_nat b / (1024 * 1024)) :: rat\<rfloor>)"
proof (cases "total_pages = 0 \<or> m = 0")
  case True
  then show ?thesis by (auto simp: pages_estimate_def fl_zero py_int_def)
next
  case False
  then have pos: "0 < total_pages" "0 < m" by simp_all
  have sz: "size_mb b = of_nat b / (1024 * 1024)" using b(2) by (rule size_mb_exact)
  have Nm: "total_pages * m < 2 ^ 53"
  proof -
    have "total_pages * m \<le> total_pages * m * 2 ^ 20" by simp
    also note small
    finally show ?thesis .
  qed
  have N: "total_pages < 2 ^ 53"
  proof -
    have "total_pages \<le> total_pages * m" using pos(2) by simp
    also note Nm
    finally show ?thesis .
  qed
  have flN: "fl (of_nat total_pages) = of_nat total_pages" using N by (rule fl_of_nat)
  have prod: "fl (of_nat total_pages * (of_nat m / 2 ^ j)) = of_nat total_pages * (of_nat m / 2 ^ j)"
  proof -
    have "0 < int (total_pages * m)" using pos by simp
    moreover have "int (total_pages * m) < 2 ^ 53"
      using Nm by (simp add: nat_less_iff flip: of_nat_power of_nat_mult)
    ultimately have "fl (of_int (int (total_pages * m)) * 2 powi (- int j))
                       = of_int (int (total_pages * m)) * 2 powi (- int j)"
      by (rule fl_dyadic)
    then show ?thesis by (simp add: power_int_minus_divide)
  qed
  define A where "A = int (total_pages * m * 2 ^ 20)"
  define B where "B = int (b * 2 ^ j)"
  have A: "0 < A" "A < 2 ^ 53"
    using pos small by (simp_all add: A_def nat_less_iff flip: of_nat_power of_nat_mult)
  have B: "0 < B" using b(1) by (simp add: B_def)
  have q: "of_nat total_pages * (of_nat m / 2 ^ j) / (of_nat b / (1024 * 1024))
             = (of_int A / of_int B :: rat)"
    using b(1) by (simp add: A_def B_def field_simps)
  have fq: "\<lfloor>fl (of_int A / of_int B)\<rfloor> = \<lfloor>(of_int A / of_int B :: rat)\<rfloor>"
    using A B by (rule floor_fl_quotient)
  have "0 \<le> fl (of_int A / of_int B)" using A B by (intro fl_nonneg) simp
  then have "py_int (fl (of_int A / of_int B)) = \<lfloor>(of_int A / of_int B :: rat)\<rfloor>"
    using fq by (simp add: py_int_nonneg)
  then show ?thesis by (simp only: pages_estimate_def flN prod sz q)
qed

theorem estimate_exact_witness:
  "(0::nat) < 5242880 \<and> (5242880::nat) < 2 ^ 53 \<and> (5::nat) * 4 * 2 ^ 20 < 2 ^ 53 \<and>
   pages_estimate 5 (of_nat 4 / 2 ^ 0) (size_mb 5242880) = 4 \<and>
   nat (max 1 \<lfloor>of_nat 5 * (of_nat 4 / 2 ^ 0) / (of_nat 5242880 / (1024 * 1024)) :: rat\<rfloor>) = 4"
proof -
  have 1: "(0::nat) < 5242880" and 2: "(5242880::nat) < 2 ^ 53"
    and 3: "(5::nat) * 4 * 2 ^ 20 < 2 ^ 53"
    by simp_all
  from estimate_exact[OF 1 2 3, of 0] 1 2 3 show ?thesis by simp
qed

text \<open>
  C8 as stated fails. For a six-page document of 1 MiB and the ceiling
  0.3333333333333333 (the float nearest to one third), the product \<open>6 * ceiling\<close> is
  \<open>2 - 2 ^ -53\<close> exactly; as a float it is a tie that rounds to \<open>2.0\<close>, so the code
  estimates 2 pages per chunk, where the floor of the exact quotient gives 1.
\<close>

theorem estimate_rounding_counterexample:
  "fl (1 / 3) = 6004799503160661 / 18014398509481984 \<and>
   6004799503160661 / 18014398509481984 < size_mb 1048576 \<and>
   pages_estimate 6 (6004799503160661 / 18014398509481984) (size_mb 1048576) = 2 \<and>
   nat (max 1 \<lfloor>of_nat 6 * (6004799503160661 / 18014398509481984)
                  / (of_nat 1048576 / (1024 * 1024)) :: rat\<rfloor>) = 1"
proof -
  have third: "fl (1 / 3) = 6004799503160661 / 18014398509481984"
  proof -
    have "fl (1 / 3) = of_int (rne ((1 / 3) / 2 powi (- 2 - 52))) * 2 powi (- 2 - 52)"
      by (rule fl_pos_eval) simp_all
    moreover have "rne ((1 / 3) / 2 powi (- 2 - 52)) = 6004799503160661"
      by (rule rne_near) simp_all
    ultimately show ?thesis by simp
  qed
  have sz: "size_mb 1048576 = 1" by (simp add: size_mb_exact)
  have six: "fl 6 = 6" using fl_of_nat[of 6] by simp
  have prod: "fl (6 * (6004799503160661 / 18014398509481984)) = 2"
  proof -
    let ?x = "6 * (6004799503160661 / 18014398509481984) :: rat"
    have "fl ?x = of_int (rne (?x / 2 powi (0 - 52))) * 2 powi (0 - 52)"
      by (rule fl_pos_eval) simp_all
    moreover have "rne (?x / 2 powi (0 - 52))
                     = (if even (9007199254740991::int) then 9007199254740991
                        else 9007199254740991 + 1)"
      by (rule rne_tie) simp
    ultimately show ?thesis by simp
  qed
  have two: "fl 2 = 2" using fl_of_nat[of 2] by simp
  have "fl (fl (fl (of_nat 6) * (6004799503160661 / 18014398509481984)) / size_mb 1048576) = 2"
    by (simp only: of_nat_numeral six prod sz div_by_1 two)
  then have est: "pages_estimate 6 (6004799503160661 / 18014398509481984) (size_mb 1048576) = 2"
    by (simp only: pages_estimate_def) (simp add: py_int_def)
  have exact: "nat (max 1 \<lfloor>of_nat 6 * (6004799503160661 / 18014398509481984)
                  / (of_nat 1048576 / (1024 * 1024)) :: rat\<rfloor>) = 1"
  proof -
    have "\<lfloor>of_nat 6 * (6004799503160661 / 18014398509481984)
                  / (of_nat 1048576 / (1024 * 1024)) :: rat\<rfloor> = 1"
      by (rule floor_unique) simp_all
    then show ?thesis by simp
  qed
  from third sz est exact show ?thesis by simp
qed

end
